theory Spec2Isabelle
  imports Main "HOL-Library.Word"
begin

unbundle bit_operations_syntax

section \<open>Go values: errors, slices, integers\<close>

text \<open>
  A Go \<^verbatim>\<open>int\<close> is an \<open>int\<close> here (lengths and positions stay far from 64 bits), a
  \<^verbatim>\<open>byte\<close> an \<open>8 word\<close>, a \<^verbatim>\<open>pgnum\<close> (\<^verbatim>\<open>uint64\<close>) a \<open>64 word\<close> and a \<^verbatim>\<open>uint16\<close> a
  \<open>16 word\<close>, whose sums wrap. A run-time panic and an error return
  are both the left summand of a result: \<open>Panic\<close> for an index or slice bound out of range,
  \<open>Fatal\<close> for the run-time's fatal error on unlocking a lock that is not held, the other
  constructors for returned errors.
\<close>

type_synonym byte = "8 word"
type_synonym pgnum = "64 word"

datatype error = Panic | Fatal | IOError | WriteInsideReadTx

definition bindE :: "error + 'a \<Rightarrow> ('a \<Rightarrow> error + 'b) \<Rightarrow> error + 'b" where
  "bindE m f = (case m of Inl e \<Rightarrow> Inl e | Inr x \<Rightarrow> f x)"

text \<open>
  Slices are lists. \<open>at xs i\<close> is \<^verbatim>\<open>xs[i]\<close>, \<open>setAt xs i v\<close> is \<^verbatim>\<open>xs[i] = v\<close>,
  \<open>sliceFrom xs i\<close> is \<^verbatim>\<open>xs[i:]\<close> and \<open>sliceTo xs i\<close> is \<^verbatim>\<open>xs[:i]\<close>; each panics out of
  range as Go does. The capacity of a slice is taken to be its length, so \<^verbatim>\<open>xs[:i]\<close>
  beyond the length panics; two nodes never share a backing array.
\<close>

definition at :: "'a list \<Rightarrow> int \<Rightarrow> error + 'a" where
  "at xs i = (if 0 \<le> i \<and> i < int (length xs) then Inr (xs ! nat i) else Inl Panic)"

definition setAt :: "'a list \<Rightarrow> int \<Rightarrow> 'a \<Rightarrow> error + 'a list" where
  "setAt xs i v = (if 0 \<le> i \<and> i < int (length xs) then Inr (xs[nat i := v]) else Inl Panic)"

definition sliceFrom :: "'a list \<Rightarrow> int \<Rightarrow> error + 'a list" where
  "sliceFrom xs i = (if 0 \<le> i \<and> i \<le> int (length xs) then Inr (drop (nat i) xs) else Inl Panic)"

definition sliceTo :: "'a list \<Rightarrow> int \<Rightarrow> error + 'a list" where
  "sliceTo xs i = (if 0 \<le> i \<and> i \<le> int (length xs) then Inr (take (nat i) xs) else Inl Panic)"

section \<open>Items and nodes (node.go)\<close>

record Item =
  key :: "byte list"
  val :: "byte list"

record Node =
  pageNum :: pgnum
  items :: "Item list"
  childNodes :: "pgnum list"

definition NewEmptyNode :: Node where
  "NewEmptyNode = \<lparr>pageNum = 0, items = [], childNodes = []\<rparr>"

definition isLast :: "int \<Rightarrow> Node \<Rightarrow> bool" where
  "isLast index parentNode = (index = int (length (items parentNode)))"

definition isFirst :: "int \<Rightarrow> bool" where
  "isFirst index = (index = 0)"

definition isLeaf :: "Node \<Rightarrow> bool" where
  "isLeaf n = (length (childNodes n) = 0)"

subsection \<open>Sizes\<close>

text \<open>
  Modelled from the spec: the constants \<^verbatim>\<open>nodeHeaderSize\<close> and \<^verbatim>\<open>pageNumSize\<close> are declared
  in a file that is not among the sources. The spec gives a header of 3 bytes and page
  numbers of 8 bytes, which is what \<^verbatim>\<open>serialize\<close> writes and the comment
  \<^verbatim>\<open>// 8 is the pgnum size\<close> says.
\<close>

definition nodeHeaderSize :: int where
  "nodeHeaderSize = 3"

definition pageNumSize :: int where
  "pageNumSize = 8"

definition elementSize :: "Node \<Rightarrow> int \<Rightarrow> error + int" where
  "elementSize n i =
     bindE (at (items n) i) (\<lambda>it.
       Inr (0 + int (length (key it)) + int (length (val it)) + pageNumSize))"

text \<open>The loop \<^verbatim>\<open>for i := range n.items\<close> of \<^verbatim>\<open>nodeSize\<close>, over the indices still to visit.\<close>

fun nodeSizeLoop :: "Node \<Rightarrow> nat list \<Rightarrow> int \<Rightarrow> error + int" where
  "nodeSizeLoop n [] sz = Inr sz"
| "nodeSizeLoop n (i # is) sz =
     bindE (elementSize n (int i)) (\<lambda>e. nodeSizeLoop n is (sz + e))"

definition nodeSize :: "Node \<Rightarrow> error + int" where
  "nodeSize n =
     bindE (nodeSizeLoop n [0..<length (items n)] (0 + nodeHeaderSize)) (\<lambda>sz.
       Inr (sz + pageNumSize))"

subsection \<open>Insertion into a node\<close>

definition addItem :: "Node \<Rightarrow> Item \<Rightarrow> int \<Rightarrow> error + Node" where
  "addItem n item insertionIndex =
     (if int (length (items n)) = insertionIndex then Inr (n\<lparr>items := items n @ [item]\<rparr>)
      else
        bindE (sliceTo (items n) (insertionIndex + 1)) (\<lambda>front.
        bindE (sliceFrom (items n) insertionIndex) (\<lambda>back.
        bindE (setAt (front @ back) insertionIndex item) (\<lambda>its.
          Inr (n\<lparr>items := its\<rparr>)))))"

subsection \<open>Rotations\<close>

text \<open>
  \<^verbatim>\<open>rotateRight\<close> and \<^verbatim>\<open>rotateLeft\<close> mutate the three nodes they are given; the model
  returns them as \<open>(leftNode, rightNode, parentNode)\<close>.
\<close>

definition rotateRight :: "Node \<Rightarrow> Node \<Rightarrow> Node \<Rightarrow> int \<Rightarrow> error + (Node \<times> Node \<times> Node)" where
  "rotateRight leftNode rightNode parentNode rightNodeIndex =
     bindE (at (items leftNode) (int (length (items leftNode)) - 1)) (\<lambda>leftNodeItem.
     bindE (sliceTo (items leftNode) (int (length (items leftNode)) - 1)) (\<lambda>leftItems.
       let leftNode1 = leftNode\<lparr>items := leftItems\<rparr>;
           pNodeIndex0 = rightNodeIndex - 1;
           pNodeIndex = (if isFirst pNodeIndex0 then 0 else pNodeIndex0)
       in
     bindE (at (items parentNode) pNodeIndex) (\<lambda>pNodeItem.
     bindE (setAt (items parentNode) pNodeIndex leftNodeItem) (\<lambda>parentItems.
       let parentNode1 = parentNode\<lparr>items := parentItems\<rparr>;
           rightNode1 = rightNode\<lparr>items := [pNodeItem] @ items rightNode\<rparr>
       in
       if \<not> isLeaf leftNode1 then
         bindE (at (childNodes leftNode1) (int (length (childNodes leftNode1)) - 1)) (\<lambda>child.
         bindE (sliceTo (childNodes leftNode1) (int (length (childNodes leftNode1)) - 1)) (\<lambda>leftChildren.
           Inr (leftNode1\<lparr>childNodes := leftChildren\<rparr>,
                rightNode1\<lparr>childNodes := [child] @ childNodes rightNode1\<rparr>,
                parentNode1)))
       else Inr (leftNode1, rightNode1, parentNode1)))))"

definition rotateLeft :: "Node \<Rightarrow> Node \<Rightarrow> Node \<Rightarrow> int \<Rightarrow> error + (Node \<times> Node \<times> Node)" where
  "rotateLeft leftNode rightNode parentNode rightNodeIndex =
     bindE (at (items rightNode) 0) (\<lambda>rightNodeItem.
     bindE (sliceFrom (items rightNode) 1) (\<lambda>rightItems.
       let rightNode1 = rightNode\<lparr>items := rightItems\<rparr>;
           pNodeIndex0 = rightNodeIndex;
           pNodeIndex = (if isLast pNodeIndex0 parentNode
                         then int (length (items parentNode)) - 1 else pNodeIndex0)
       in
     bindE (at (items parentNode) pNodeIndex) (\<lambda>pNodeItem.
     bindE (setAt (items parentNode) pNodeIndex rightNodeItem) (\<lambda>parentItems.
       let parentNode1 = parentNode\<lparr>items := parentItems\<rparr>;
           leftNode1 = leftNode\<lparr>items := items leftNode @ [pNodeItem]\<rparr>
       in
       if \<not> isLeaf rightNode1 then
         bindE (at (childNodes rightNode1) 0) (\<lambda>child.
         bindE (sliceFrom (childNodes rightNode1) 1) (\<lambda>rightChildren.
           Inr (leftNode1\<lparr>childNodes := childNodes leftNode1 @ [child]\<rparr>,
                rightNode1\<lparr>childNodes := rightChildren\<rparr>,
                parentNode1)))
       else Inr (leftNode1, rightNode1, parentNode1)))))"

subsection \<open>Serialization\<close>

text \<open>
  A page buffer is a list of bytes. \<open>le_bytes k w\<close> are the \<open>k\<close> low bytes of \<open>w\<close>, lowest
  first, and \<open>le_word\<close> reads them back: the little-endian byte order of
  \<^verbatim>\<open>encoding/binary\<close>. \<open>writeAt buf p bs\<close> is \<open>buf\<close> with \<open>bs\<close> laid over it from position
  \<open>p\<close>.
\<close>

definition le_bytes :: "nat \<Rightarrow> 'a::len word \<Rightarrow> byte list" where
  "le_bytes k w = map (\<lambda>j. ucast (drop_bit (8 * j) w)) [0..<k]"

fun le_word :: "byte list \<Rightarrow> 'a::len word" where
  "le_word [] = 0"
| "le_word (b # bs) = ucast b OR push_bit 8 (le_word bs)"

definition writeAt :: "byte list \<Rightarrow> nat \<Rightarrow> byte list \<Rightarrow> byte list" where
  "writeAt buf p bs = take p buf @ bs @ drop (p + length bs) buf"

text \<open>
  \<open>PutUint16 buf pos v\<close> is \<^verbatim>\<open>binary.LittleEndian.PutUint16(buf[pos:], v)\<close>, and so on:
  the slice expression panics beyond the buffer, the call on a slice that is too short.
  \<open>copyAt buf pos src\<close> is \<^verbatim>\<open>copy(buf[pos:], src)\<close>, which copies what fits.
  \<open>slice buf lo hi\<close> is \<^verbatim>\<open>buf[lo:hi]\<close>.
\<close>

definition PutUint16 :: "byte list \<Rightarrow> int \<Rightarrow> 16 word \<Rightarrow> error + byte list" where
  "PutUint16 buf pos v =
     bindE (sliceFrom buf pos) (\<lambda>b.
       if length b < 2 then Inl Panic else Inr (writeAt buf (nat pos) (le_bytes 2 v)))"

definition PutUint64 :: "byte list \<Rightarrow> int \<Rightarrow> 64 word \<Rightarrow> error + byte list" where
  "PutUint64 buf pos v =
     bindE (sliceFrom buf pos) (\<lambda>b.
       if length b < 8 then Inl Panic else Inr (writeAt buf (nat pos) (le_bytes 8 v)))"

definition Uint16 :: "byte list \<Rightarrow> int \<Rightarrow> error + 16 word" where
  "Uint16 buf pos =
     bindE (sliceFrom buf pos) (\<lambda>b.
       if length b < 2 then Inl Panic else Inr (le_word (take 2 b)))"

definition Uint64 :: "byte list \<Rightarrow> int \<Rightarrow> error + 64 word" where
  "Uint64 buf pos =
     bindE (sliceFrom buf pos) (\<lambda>b.
       if length b < 8 then Inl Panic else Inr (le_word (take 8 b)))"

definition copyAt :: "byte list \<Rightarrow> int \<Rightarrow> byte list \<Rightarrow> error + byte list" where
  "copyAt buf pos src =
     bindE (sliceFrom buf pos) (\<lambda>b. Inr (writeAt buf (nat pos) (take (length b) src)))"

definition slice :: "'a list \<Rightarrow> int \<Rightarrow> int \<Rightarrow> error + 'a list" where
  "slice xs lo hi =
     (if 0 \<le> lo \<and> lo \<le> hi \<and> hi \<le> int (length xs)
      then Inr (take (nat (hi - lo)) (drop (nat lo) xs)) else Inl Panic)"

text \<open>
  The loop of \<^verbatim>\<open>serialize\<close> over the items, \<open>i\<close> being the index of the first one left;
  its state is \<open>(leftPos, rightPos, buf)\<close>.
\<close>

fun serializeItems ::
  "pgnum list \<Rightarrow> bool \<Rightarrow> int \<Rightarrow> Item list \<Rightarrow> int \<times> int \<times> byte list \<Rightarrow> error + (int \<times> int \<times> byte list)" where
  "serializeItems cs leaf i [] st = Inr st"
| "serializeItems cs leaf i (item # rest) (leftPos, rightPos, buf) =
     bindE
       (if \<not> leaf then
          bindE (at cs i) (\<lambda>childNode.
          bindE (PutUint64 buf leftPos childNode) (\<lambda>buf1.
            Inr (leftPos + pageNumSize, buf1)))
        else Inr (leftPos, buf))
       (\<lambda>(leftPos1, buf1).
          let klen = int (length (key item));
              vlen = int (length (val item));
              offset = rightPos - klen - vlen - 2
          in
     bindE (PutUint16 buf1 leftPos1 (word_of_int offset)) (\<lambda>buf2.
          let leftPos2 = leftPos1 + 2;
              rightPos1 = rightPos - vlen
          in
     bindE (copyAt buf2 rightPos1 (val item)) (\<lambda>buf3.
          let rightPos2 = rightPos1 - 1 in
     bindE (setAt buf3 rightPos2 (word_of_int vlen)) (\<lambda>buf4.
          let rightPos3 = rightPos2 - klen in
     bindE (copyAt buf4 rightPos3 (key item)) (\<lambda>buf5.
          let rightPos4 = rightPos3 - 1 in
     bindE (setAt buf5 rightPos4 (word_of_int klen)) (\<lambda>buf6.
       serializeItems cs leaf (i + 1) rest (leftPos2, rightPos4, buf6)))))))"

definition serialize :: "Node \<Rightarrow> byte list \<Rightarrow> error + byte list" where
  "serialize n buf =
     (let leftPos = 0;
          rightPos = int (length buf) - 1;
          leaf = isLeaf n;
          bitSetVar = (if leaf then 1 else 0 :: 64 word)
      in
      bindE (setAt buf leftPos (ucast bitSetVar)) (\<lambda>buf1.
        let leftPos1 = leftPos + 1 in
      bindE (PutUint16 buf1 leftPos1 (word_of_int (int (length (items n))))) (\<lambda>buf2.
        let leftPos2 = leftPos1 + 2 in
      bindE (serializeItems (childNodes n) leaf 0 (items n) (leftPos2, rightPos, buf2))
        (\<lambda>(leftPos3, rightPos3, buf3).
           if \<not> leaf then
             bindE (at (childNodes n) (int (length (childNodes n)) - 1)) (\<lambda>lastChildNode.
               PutUint64 buf3 leftPos3 lastChildNode)
           else Inr buf3))))"

text \<open>
  The loop of \<^verbatim>\<open>deserialize\<close>, with the number of items still to read; its state is
  \<open>leftPos\<close> and the node being filled. \<^verbatim>\<open>offset\<close>, \<^verbatim>\<open>klen\<close> and \<^verbatim>\<open>vlen\<close> are
  \<^verbatim>\<open>uint16\<close>, and their sums wrap.
\<close>

definition newItem :: "byte list \<Rightarrow> byte list \<Rightarrow> Item" where
  "newItem k v = \<lparr>key = k, val = v\<rparr>"

fun deserializeItems :: "byte list \<Rightarrow> 16 word \<Rightarrow> nat \<Rightarrow> int \<times> Node \<Rightarrow> error + (int \<times> Node)" where
  "deserializeItems buf leafFlag 0 st = Inr st"
| "deserializeItems buf leafFlag (Suc k) (leftPos, n) =
     bindE
       (if leafFlag = 0 then
          bindE (Uint64 buf leftPos) (\<lambda>pn.
            Inr (leftPos + pageNumSize, n\<lparr>childNodes := childNodes n @ [pn]\<rparr>))
        else Inr (leftPos, n))
       (\<lambda>(leftPos1, n1).
     bindE (Uint16 buf leftPos1) (\<lambda>offset.
          let leftPos2 = leftPos1 + 2 in
     bindE (at buf (uint offset)) (\<lambda>klenByte.
          let klen = (ucast klenByte :: 16 word);
              offset1 = offset + 1
          in
     bindE (slice buf (uint offset1) (uint (offset1 + klen))) (\<lambda>k'.
          let offset2 = offset1 + klen in
     bindE (at buf (uint offset2)) (\<lambda>vlenByte.
          let vlen = (ucast vlenByte :: 16 word);
              offset3 = offset2 + 1
          in
     bindE (slice buf (uint offset3) (uint (offset3 + vlen))) (\<lambda>v'.
       deserializeItems buf leafFlag k
         (leftPos2, n1\<lparr>items := items n1 @ [newItem k' v']\<rparr>)))))))"

definition deserialize :: "Node \<Rightarrow> byte list \<Rightarrow> error + Node" where
  "deserialize n buf =
     (let leftPos = 0 in
      bindE (at buf 0) (\<lambda>b0.
        let leafFlag = (ucast b0 :: 16 word) in
      bindE (slice buf 1 3) (\<lambda>hdr.
        let itemsCount = uint (le_word hdr :: 16 word);
            leftPos1 = leftPos + 3
        in
      bindE (deserializeItems buf leafFlag (nat itemsCount) (leftPos1, n)) (\<lambda>(leftPos2, n1).
        if leafFlag = 0 then
          bindE (Uint64 buf leftPos2) (\<lambda>pn.
            Inr (n1\<lparr>childNodes := childNodes n1 @ [pn]\<rparr>))
        else Inr n1))))"

text \<open>
  The bytes \<^verbatim>\<open>serialize\<close> writes for a node: the header, for each item its offset and
  its cell (two length bytes, the key and the value), and for a node with children a page
  number before each offset and one after the last.
\<close>

definition serializedSize :: "Node \<Rightarrow> int" where
  "serializedSize n =
     3 + (\<Sum>it\<leftarrow>items n. (if isLeaf n then 0 else 8) + 2
                         + (1 + int (length (key it)) + 1 + int (length (val it))))
       + (if isLeaf n then 0 else 8)"

section \<open>The page store\<close>

text \<open>
  Modelled from the spec: the data access layer (\<^verbatim>\<open>dal\<close>) and its free-list are not among
  the sources. The spec's free-list holds \<open>max_page\<close>, the next never-allocated page
  number, and the released page numbers; allocation pops from the released list if it is
  non-empty and otherwise increments \<open>max_page\<close>; release pushes onto the released list.
\<close>

record freelist =
  maxPage :: pgnum
  releasedPages :: "pgnum list"

definition getNextPage :: "freelist \<Rightarrow> pgnum \<times> freelist" where
  "getNextPage fr =
     (if releasedPages fr \<noteq> []
      then (last (releasedPages fr), fr\<lparr>releasedPages := butlast (releasedPages fr)\<rparr>)
      else (maxPage fr, fr\<lparr>maxPage := maxPage fr + 1\<rparr>))"

definition releasePage :: "freelist \<Rightarrow> pgnum \<Rightarrow> freelist" where
  "releasePage fr page = fr\<lparr>releasedPages := releasedPages fr @ [page]\<rparr>"

text \<open>
  Modelled from the spec: the page store keeps one node per page. \<open>read_node\<close> reads one
  page and fails with an I/O error where there is none; \<open>write_node\<close> allocates a page
  number if the node has none (zero) and writes the node at its page; \<open>delete_node\<close>
  pushes the page onto the released list; a new node takes a fresh page number from the
  free-list. A page holds the node's items and child page numbers, as \<^verbatim>\<open>serialize\<close>
  writes them; the page number is the one read. node.go discards the error of a write,
  so a write is taken to succeed here.
\<close>

record dal =
  pages :: "pgnum \<Rightarrow> Node option"
  freelist :: freelist

definition dal_getNode :: "dal \<Rightarrow> pgnum \<Rightarrow> error + Node" where
  "dal_getNode d p = (case pages d p of None \<Rightarrow> Inl IOError | Some n \<Rightarrow> Inr (n\<lparr>pageNum := p\<rparr>))"

definition dal_writeNode :: "dal \<Rightarrow> Node \<Rightarrow> dal \<times> Node" where
  "dal_writeNode d n =
     (if pageNum n = 0
      then (let (p, fr) = getNextPage (freelist d); n1 = n\<lparr>pageNum := p\<rparr>
            in (d\<lparr>pages := (pages d)(p \<mapsto> n1), freelist := fr\<rparr>, n1))
      else (d\<lparr>pages := (pages d)(pageNum n \<mapsto> n)\<rparr>, n))"

definition dal_newNode :: "dal \<Rightarrow> Item list \<Rightarrow> pgnum list \<Rightarrow> dal \<times> Node" where
  "dal_newNode d its cs =
     (let (p, fr) = getNextPage (freelist d)
      in (d\<lparr>freelist := fr\<rparr>, \<lparr>pageNum = p, items = its, childNodes = cs\<rparr>))"

definition dal_deleteNode :: "dal \<Rightarrow> pgnum \<Rightarrow> dal" where
  "dal_deleteNode d p = d\<lparr>freelist := releasePage (freelist d) p\<rparr>"

section \<open>Tree operations on nodes (node.go)\<close>

text \<open>
  A node reaches the page store through its embedded \<^verbatim>\<open>*dal\<close>; the model passes the store
  in and returns it. \<^verbatim>\<open>getSplitIndex\<close> belongs to the absent data access layer and is a
  parameter: an index into the node's items, or \<open>-1\<close> when the node cannot give up an item.
\<close>

definition writeNode :: "dal \<Rightarrow> Node \<Rightarrow> dal \<times> Node" where
  "writeNode d node = dal_writeNode d node"

text \<open>
  A write gives a node without a page number its page number, and the node is written
  through a pointer: \<open>writeNodes\<close> returns the nodes as they are after the writes.
\<close>

fun writeNodes :: "dal \<Rightarrow> Node list \<Rightarrow> dal \<times> Node list" where
  "writeNodes d [] = (d, [])"
| "writeNodes d (node # nodes) =
     (let (d1, node1) = writeNode d node;
          (d2, nodes1) = writeNodes d1 nodes
      in (d2, node1 # nodes1))"

definition getNode :: "dal \<Rightarrow> pgnum \<Rightarrow> error + Node" where
  "getNode d p = dal_getNode d p"

definition canSpareAnElement :: "(Node \<Rightarrow> int) \<Rightarrow> Node \<Rightarrow> bool" where
  "canSpareAnElement getSplitIndex n =
     (let splitIndex = getSplitIndex n in if splitIndex = -1 then False else True)"

text \<open>\<^verbatim>\<open>split\<close> returns the store, the parent, the node that was split and the new node.\<close>

definition split ::
  "dal \<Rightarrow> (Node \<Rightarrow> int) \<Rightarrow> Node \<Rightarrow> Node \<Rightarrow> int \<Rightarrow> error + (dal \<times> Node \<times> Node \<times> Node)" where
  "split d getSplitIndex n nodeToSplit nodeToSplitIndex =
     (let splitIndex = getSplitIndex nodeToSplit in
      bindE (at (items nodeToSplit) splitIndex) (\<lambda>middleItem.
      bindE
        (if isLeaf nodeToSplit then
           bindE (sliceFrom (items nodeToSplit) (splitIndex + 1)) (\<lambda>newItems.
             let (d1, fresh) = dal_newNode d newItems [];
                 (d2, newNode) = writeNode d1 fresh
             in
           bindE (sliceTo (items nodeToSplit) splitIndex) (\<lambda>keptItems.
             Inr (d2, newNode, nodeToSplit\<lparr>items := keptItems\<rparr>)))
         else
           bindE (sliceFrom (items nodeToSplit) (splitIndex + 1)) (\<lambda>newItems.
           bindE (sliceFrom (childNodes nodeToSplit) (splitIndex + 1)) (\<lambda>newChildren.
             let (d1, fresh) = dal_newNode d newItems newChildren;
                 (d2, newNode) = writeNode d1 fresh
             in
           bindE (sliceTo (items nodeToSplit) splitIndex) (\<lambda>keptItems.
           bindE (sliceTo (childNodes nodeToSplit) (splitIndex + 1)) (\<lambda>keptChildren.
             Inr (d2, newNode,
                  nodeToSplit\<lparr>items := keptItems, childNodes := keptChildren\<rparr>))))))
        (\<lambda>(d2, newNode, nodeToSplit1).
      bindE (addItem n middleItem nodeToSplitIndex) (\<lambda>n1.
      bindE
        (if int (length (childNodes n1)) = nodeToSplitIndex + 1
         then Inr (childNodes n1 @ [pageNum newNode])
         else
           bindE (sliceTo (childNodes n1) (nodeToSplitIndex + 1)) (\<lambda>front.
           bindE (sliceFrom (childNodes n1) nodeToSplitIndex) (\<lambda>back.
             setAt (front @ back) (nodeToSplitIndex + 1) (pageNum newNode))))
        (\<lambda>parentChildren.
           let n2 = n1\<lparr>childNodes := parentChildren\<rparr>;
               (d3, written) = writeNodes d2 [n2, nodeToSplit1]
           in Inr (d3, written ! 0, written ! 1, newNode))))))"

definition removeItemFromLeaf :: "dal \<Rightarrow> Node \<Rightarrow> int \<Rightarrow> error + (dal \<times> Node)" where
  "removeItemFromLeaf d n index =
     bindE (sliceTo (items n) index) (\<lambda>front.
     bindE (sliceFrom (items n) (index + 1)) (\<lambda>back.
       let n1 = n\<lparr>items := front @ back\<rparr>;
           (d1, written) = writeNodes d [n1]
       in Inr (d1, written ! 0)))"

text \<open>
  The loop \<^verbatim>\<open>for !lNode.isLeaf()\<close> of \<^verbatim>\<open>removeItemFromInternal\<close> follows page numbers
  through the store and need not end on a store with a cycle: it runs on fuel, and \<open>None\<close>
  is a run that has not returned when the fuel is spent.
\<close>

fun goRight :: "nat \<Rightarrow> dal \<Rightarrow> Node \<Rightarrow> Node \<Rightarrow> int list \<Rightarrow> (error + (Node \<times> int list)) option" where
  "goRight fuel d n lNode affectedNodes =
     (if \<not> isLeaf lNode then
        (case fuel of
           0 \<Rightarrow> None
         | Suc fuel' \<Rightarrow>
             (let rIndex = int (length (childNodes n)) - 1 in
              case at (childNodes lNode) rIndex of
                Inl e \<Rightarrow> Some (Inl e)
              | Inr c \<Rightarrow>
                  (case getNode d c of
                     Inl e \<Rightarrow> Some (Inl e)
                   | Inr lNode' \<Rightarrow> goRight fuel' d n lNode' (affectedNodes @ [rIndex]))))
      else Some (Inr (lNode, affectedNodes)))"

text \<open>
  \<^verbatim>\<open>removeItemFromInternal\<close> returns the store, the node \<open>n\<close>, the leaf it took the item
  from, and the affected indexes.
\<close>

definition removeItemFromInternal ::
  "nat \<Rightarrow> dal \<Rightarrow> Node \<Rightarrow> int \<Rightarrow> (error + (dal \<times> Node \<times> Node \<times> int list)) option" where
  "removeItemFromInternal fuel d n index =
     (let affectedNodes = [] @ [index] in
      case at (childNodes n) index of
        Inl e \<Rightarrow> Some (Inl e)
      | Inr c \<Rightarrow>
          (case getNode d c of
             Inl e \<Rightarrow> Some (Inl e)
           | Inr lNode0 \<Rightarrow>
               (case goRight fuel d n lNode0 affectedNodes of
                  None \<Rightarrow> None
                | Some (Inl e) \<Rightarrow> Some (Inl e)
                | Some (Inr (lNode, affectedNodes')) \<Rightarrow>
                    Some (
                      bindE (at (items lNode) (int (length (items lNode)) - 1)) (\<lambda>lastItem.
                      bindE (setAt (items n) index lastItem) (\<lambda>nItems.
                      bindE (sliceTo (items lNode) (int (length (items lNode)) - 1)) (\<lambda>lItems.
                        let n1 = n\<lparr>items := nItems\<rparr>;
                            lNode1 = lNode\<lparr>items := lItems\<rparr>;
                            (d1, written) = writeNodes d [n1, lNode1]
                        in Inr (d1, written ! 0, written ! 1, affectedNodes'))))))))"

text \<open>\<^verbatim>\<open>merge\<close> returns the store and the parent \<open>n\<close>.\<close>

definition merge :: "dal \<Rightarrow> Node \<Rightarrow> Node \<Rightarrow> int \<Rightarrow> error + (dal \<times> Node)" where
  "merge d n bNode bNodeIndex =
     bindE (at (childNodes n) (bNodeIndex - 1)) (\<lambda>c.
     bindE (getNode d c) (\<lambda>aNode.
     bindE (at (items n) (bNodeIndex - 1)) (\<lambda>pNodeItem.
     bindE (sliceTo (items n) (bNodeIndex - 1)) (\<lambda>front.
     bindE (sliceFrom (items n) bNodeIndex) (\<lambda>back.
       let n1 = n\<lparr>items := front @ back\<rparr>;
           aNode1 = aNode\<lparr>items := items aNode @ [pNodeItem]\<rparr>;
           aNode2 = aNode1\<lparr>items := items aNode1 @ items bNode\<rparr>
       in
     bindE (sliceTo (childNodes n1) bNodeIndex) (\<lambda>cfront.
     bindE (sliceFrom (childNodes n1) (bNodeIndex + 1)) (\<lambda>cback.
       let n2 = n1\<lparr>childNodes := cfront @ cback\<rparr>;
           aNode3 = (if \<not> isLeaf aNode2
                     then aNode2\<lparr>childNodes := childNodes aNode2 @ childNodes bNode\<rparr>
                     else aNode2);
           (d1, written) = writeNodes d [aNode3, n2]
       in Inr (dal_deleteNode d1 (pageNum bNode), written ! 1))))))))"

text \<open>
  \<^verbatim>\<open>rebalanceRemove\<close> returns the store, the parent and the unbalanced node. It is written
  over the function it calls for a merge, so that what it passes to \<^verbatim>\<open>merge\<close> can be
  stated; \<open>None\<close> inside marks a rotation case that fell through to the next one.
\<close>

definition rebalanceRemoveWith ::
  "(dal \<Rightarrow> Node \<Rightarrow> Node \<Rightarrow> int \<Rightarrow> error + (dal \<times> Node)) \<Rightarrow>
   dal \<Rightarrow> (Node \<Rightarrow> int) \<Rightarrow> Node \<Rightarrow> Node \<Rightarrow> int \<Rightarrow> error + (dal \<times> Node \<times> Node)" where
  "rebalanceRemoveWith mergeFn d getSplitIndex n unabalancedNode unbalancedNodeIndex =
     (let parent = n in
      bindE
        (if unbalancedNodeIndex \<noteq> 0 then
           bindE (at (childNodes parent) (unbalancedNodeIndex - 1)) (\<lambda>c.
           bindE (getNode d c) (\<lambda>leftNode.
             if canSpareAnElement getSplitIndex leftNode then
               bindE (rotateRight leftNode unabalancedNode parent unbalancedNodeIndex)
                 (\<lambda>(leftNode1, unabalancedNode1, parent1).
                    let (d1, written) = writeNodes d [leftNode1, parent1, unabalancedNode1]
                    in Inr (Some (d1, written ! 1, written ! 2)))
             else Inr None))
         else Inr None)
        (\<lambda>rotatedRight. case rotatedRight of Some res \<Rightarrow> Inr res | None \<Rightarrow>
      bindE
        (if unbalancedNodeIndex \<noteq> int (length (childNodes parent)) - 1 then
           bindE (at (childNodes parent) (unbalancedNodeIndex + 1)) (\<lambda>c.
           bindE (getNode d c) (\<lambda>rightNode.
             if canSpareAnElement getSplitIndex rightNode then
               bindE (rotateLeft unabalancedNode rightNode parent unbalancedNodeIndex)
                 (\<lambda>(unabalancedNode1, rightNode1, parent1).
                    let (d1, written) = writeNodes d [unabalancedNode1, parent1, rightNode1]
                    in Inr (Some (d1, written ! 1, written ! 0)))
             else Inr None))
         else Inr None)
        (\<lambda>rotatedLeft. case rotatedLeft of Some res \<Rightarrow> Inr res | None \<Rightarrow>
      if unbalancedNodeIndex = 0 then
        bindE (at (childNodes parent) (unbalancedNodeIndex + 1)) (\<lambda>c.
        bindE (getNode d c) (\<lambda>rightNode.
        bindE (mergeFn d parent rightNode (unbalancedNodeIndex + 1)) (\<lambda>(d1, parent1).
          Inr (d1, parent1, unabalancedNode))))
      else
        bindE (mergeFn d parent unabalancedNode unbalancedNodeIndex) (\<lambda>(d1, parent1).
          Inr (d1, parent1, unabalancedNode)))))"

definition rebalanceRemove ::
  "dal \<Rightarrow> (Node \<Rightarrow> int) \<Rightarrow> Node \<Rightarrow> Node \<Rightarrow> int \<Rightarrow> error + (dal \<times> Node \<times> Node)" where
  "rebalanceRemove = rebalanceRemoveWith merge"

section \<open>Transactions (transaction.go, db.go)\<close>

text \<open>
  The store's reader/writer lock is a count of readers and a writer flag. Taking a lock that
  is not free blocks, which is \<open>None\<close>; releasing a lock that is not held is the run-time's
  fatal error.
\<close>

record rwlock =
  readers :: nat
  writer :: bool

definition RLock :: "rwlock \<Rightarrow> rwlock option" where
  "RLock l = (if writer l then None else Some (l\<lparr>readers := readers l + 1\<rparr>))"

definition Lock :: "rwlock \<Rightarrow> rwlock option" where
  "Lock l = (if writer l \<or> readers l \<noteq> 0 then None else Some (l\<lparr>writer := True\<rparr>))"

definition RUnlock :: "rwlock \<Rightarrow> error + rwlock" where
  "RUnlock l = (if readers l = 0 then Inl Fatal else Inr (l\<lparr>readers := readers l - 1\<rparr>))"

definition Unlock :: "rwlock \<Rightarrow> error + rwlock" where
  "Unlock l = (if \<not> writer l then Inl Fatal else Inr (l\<lparr>writer := False\<rparr>))"

record DB =
  rwlock :: rwlock
  dal :: dal

text \<open>
  A transaction holds a pointer to the store; the model passes the store beside it. The
  dirty-node map is a map from page numbers; \<^verbatim>\<open>nil\<close> is the empty map and the empty list.
  The field \<^verbatim>\<open>write\<close> is \<open>writeFlag\<close>.
\<close>

record tx =
  dirtyNodes :: "pgnum \<Rightarrow> Node option"
  pagesToDelete :: "pgnum list"
  allocatedPageNums :: "pgnum list"
  writeFlag :: bool

definition newTx :: "bool \<Rightarrow> tx" where
  "newTx w = \<lparr>dirtyNodes = Map.empty, pagesToDelete = [], allocatedPageNums = [], writeFlag = w\<rparr>"

definition ReadTx :: "DB \<Rightarrow> (tx \<times> DB) option" where
  "ReadTx db = (case RLock (rwlock db) of None \<Rightarrow> None
                | Some l \<Rightarrow> Some (newTx False, db\<lparr>rwlock := l\<rparr>))"

definition WriteTx :: "DB \<Rightarrow> (tx \<times> DB) option" where
  "WriteTx db = (case Lock (rwlock db) of None \<Rightarrow> None
                 | Some l \<Rightarrow> Some (newTx True, db\<lparr>rwlock := l\<rparr>))"

text \<open>\<^verbatim>\<open>tx.newNode\<close>: the page number comes from the store's free-list and is recorded.\<close>

definition tx_newNode :: "tx \<Rightarrow> DB \<Rightarrow> Item list \<Rightarrow> pgnum list \<Rightarrow> Node \<times> tx \<times> DB" where
  "tx_newNode t db its cs =
     (let (p, fr) = getNextPage (freelist (dal db));
          node = NewEmptyNode\<lparr>items := its, childNodes := cs, pageNum := p\<rparr>
      in (node,
          t\<lparr>allocatedPageNums := allocatedPageNums t @ [pageNum node]\<rparr>,
          db\<lparr>dal := (dal db)\<lparr>freelist := fr\<rparr>\<rparr>))"

text \<open>A run of \<^verbatim>\<open>tx.newNode\<close> calls, one for each pair of items and children given.\<close>

fun tx_newNodes :: "tx \<Rightarrow> DB \<Rightarrow> (Item list \<times> pgnum list) list \<Rightarrow> Node list \<times> tx \<times> DB" where
  "tx_newNodes t db [] = ([], t, db)"
| "tx_newNodes t db ((its, cs) # rest) =
     (let (node, t1, db1) = tx_newNode t db its cs;
          (nodes, t2, db2) = tx_newNodes t1 db1 rest
      in (node # nodes, t2, db2))"

definition tx_getNode :: "tx \<Rightarrow> DB \<Rightarrow> pgnum \<Rightarrow> error + Node" where
  "tx_getNode t db p =
     (case dirtyNodes t p of Some node \<Rightarrow> Inr node | None \<Rightarrow> dal_getNode (dal db) p)"

definition tx_writeNode :: "tx \<Rightarrow> Node \<Rightarrow> tx \<times> Node" where
  "tx_writeNode t node = (t\<lparr>dirtyNodes := (dirtyNodes t)(pageNum node \<mapsto> node)\<rparr>, node)"

definition tx_deleteNode :: "tx \<Rightarrow> Node \<Rightarrow> tx" where
  "tx_deleteNode t node = t\<lparr>pagesToDelete := pagesToDelete t @ [pageNum node]\<rparr>"

text \<open>\<^verbatim>\<open>Rollback\<close> returns the fatal error of the unlock, if any, the transaction and the store.\<close>

fun releasePages :: "freelist \<Rightarrow> pgnum list \<Rightarrow> freelist" where
  "releasePages fr [] = fr"
| "releasePages fr (p # ps) = releasePages (releasePage fr p) ps"

definition Rollback :: "tx \<Rightarrow> DB \<Rightarrow> error option \<times> tx \<times> DB" where
  "Rollback t db =
     (if \<not> writeFlag t then
        (case RUnlock (rwlock db) of Inl e \<Rightarrow> (Some e, t, db)
         | Inr l \<Rightarrow> (None, t, db\<lparr>rwlock := l\<rparr>))
      else
        (let t1 = t\<lparr>dirtyNodes := Map.empty\<rparr>;
             t2 = t1\<lparr>pagesToDelete := []\<rparr>;
             db1 = db\<lparr>dal := (dal db)\<lparr>freelist :=
                      releasePages (freelist (dal db)) (allocatedPageNums t2)\<rparr>\<rparr>;
             t3 = t2\<lparr>allocatedPageNums := []\<rparr>
         in case Unlock (rwlock db1) of Inl e \<Rightarrow> (Some e, t3, db1)
            | Inr l \<Rightarrow> (None, t3, db1\<lparr>rwlock := l\<rparr>)))"

text \<open>
  \<^verbatim>\<open>Commit\<close> calls three operations of the absent data access layer, which are parameters:
  \<open>dbWriteNode\<close> (\<^verbatim>\<open>tx.db.writeNode\<close>, giving the written node or an error) and
  \<open>dbWriteFreelist\<close> (\<^verbatim>\<open>tx.db.writeFreelist\<close>) may fail, \<open>dbDeleteNode\<close>
  (\<^verbatim>\<open>tx.db.deleteNode\<close>) returns nothing; each returns the store as it leaves it. Go ranges over a map in an
  order of its own choosing: \<open>order\<close> is that order, a list of page numbers, and the nodes
  ranged over are the entries of the map met along it.
\<close>

fun rangeNodes :: "(pgnum \<Rightarrow> Node option) \<Rightarrow> pgnum list \<Rightarrow> Node list" where
  "rangeNodes m [] = []"
| "rangeNodes m (p # ps) = (case m p of None \<Rightarrow> rangeNodes m ps | Some node \<Rightarrow> node # rangeNodes m ps)"

fun commitNodes :: "(dal \<Rightarrow> Node \<Rightarrow> (error + Node) \<times> dal) \<Rightarrow> dal \<Rightarrow> Node list \<Rightarrow> error option \<times> dal" where
  "commitNodes dbWriteNode d [] = (None, d)"
| "commitNodes dbWriteNode d (node # nodes) =
     (case dbWriteNode d node of
        (Inl err, d1) \<Rightarrow> (Some err, d1)
      | (Inr written, d1) \<Rightarrow> commitNodes dbWriteNode d1 nodes)"

fun deletePages :: "(dal \<Rightarrow> pgnum \<Rightarrow> dal) \<Rightarrow> dal \<Rightarrow> pgnum list \<Rightarrow> dal" where
  "deletePages dbDeleteNode d [] = d"
| "deletePages dbDeleteNode d (p # ps) = deletePages dbDeleteNode (dbDeleteNode d p) ps"

definition Commit ::
  "(dal \<Rightarrow> Node \<Rightarrow> (error + Node) \<times> dal) \<Rightarrow> (dal \<Rightarrow> pgnum \<Rightarrow> dal) \<Rightarrow> (dal \<Rightarrow> error option \<times> dal) \<Rightarrow>
   pgnum list \<Rightarrow> tx \<Rightarrow> DB \<Rightarrow> error option \<times> tx \<times> DB" where
  "Commit dbWriteNode dbDeleteNode dbWriteFreelist order t db =
     (if \<not> writeFlag t then
        (case RUnlock (rwlock db) of Inl e \<Rightarrow> (Some e, t, db)
         | Inr l \<Rightarrow> (None, t, db\<lparr>rwlock := l\<rparr>))
      else
        (case commitNodes dbWriteNode (dal db) (rangeNodes (dirtyNodes t) order) of
           (Some err, d1) \<Rightarrow> (Some err, t, db\<lparr>dal := d1\<rparr>)
         | (None, d1) \<Rightarrow>
             (let d2 = deletePages dbDeleteNode d1 (pagesToDelete t) in
              case dbWriteFreelist d2 of
                (Some err, d3) \<Rightarrow> (Some err, t, db\<lparr>dal := d3\<rparr>)
              | (None, d3) \<Rightarrow>
                  (let t1 = t\<lparr>dirtyNodes := Map.empty\<rparr>;
                       t2 = t1\<lparr>pagesToDelete := []\<rparr>;
                       t3 = t2\<lparr>allocatedPageNums := []\<rparr>;
                       db1 = db\<lparr>dal := d3\<rparr>
                   in case Unlock (rwlock db1) of Inl e \<Rightarrow> (Some e, t3, db1)
                      | Inr l \<Rightarrow> (None, t3, db1\<lparr>rwlock := l\<rparr>)))))"

subsection \<open>Collections\<close>

text \<open>
  Modelled from the spec: collection.go is not among the sources. A collection is a name and
  the page number of its root. A put is a mutating call, and the spec has every mutating
  call on a read-only transaction fail with \<open>WriteInsideReadTx\<close>; the insertion into the
  B-tree that a put on a write transaction performs is the parameter \<open>insertFn\<close>.
\<close>

record Collection =
  name :: "byte list"
  root :: pgnum

definition newEmptyCollection :: Collection where
  "newEmptyCollection = \<lparr>name = [], root = 0\<rparr>"

definition Collection_Put ::
  "(Collection \<Rightarrow> byte list \<Rightarrow> byte list \<Rightarrow> tx \<Rightarrow> DB \<Rightarrow> error option \<times> tx \<times> DB) \<Rightarrow>
   Collection \<Rightarrow> byte list \<Rightarrow> byte list \<Rightarrow> tx \<Rightarrow> DB \<Rightarrow> error option \<times> tx \<times> DB" where
  "Collection_Put insertFn c k v t db =
     (if \<not> writeFlag t then (Some WriteInsideReadTx, t, db) else insertFn c k v t db)"

text \<open>
  \<^verbatim>\<open>CreateCollection\<close> and \<^verbatim>\<open>DeleteCollection\<close> are in transaction.go. What they call of
  the absent files is a parameter: \<open>dbWriteNode\<close> (\<^verbatim>\<open>tx.db.writeNode\<close>, giving the node with
  its page number), \<open>rootOf\<close> (the root page of the collections tree, \<^verbatim>\<open>tx.db.root\<close>),
  \<open>serializeC\<close> (\<^verbatim>\<open>collection.serialize\<close>), \<open>insertFn\<close> (see above) and \<open>removeFn\<close>
  (\<^verbatim>\<open>Collection.Remove\<close>).
\<close>

definition getRootCollection :: "(dal \<Rightarrow> pgnum) \<Rightarrow> DB \<Rightarrow> Collection" where
  "getRootCollection rootOf db = newEmptyCollection\<lparr>root := rootOf (dal db)\<rparr>"

definition createCollection' ::
  "(dal \<Rightarrow> pgnum) \<Rightarrow> (Collection \<Rightarrow> Item) \<Rightarrow>
   (Collection \<Rightarrow> byte list \<Rightarrow> byte list \<Rightarrow> tx \<Rightarrow> DB \<Rightarrow> error option \<times> tx \<times> DB) \<Rightarrow>
   tx \<Rightarrow> DB \<Rightarrow> Collection \<Rightarrow> (error + Collection) \<times> tx \<times> DB" where
  "createCollection' rootOf serializeC insertFn t db collection =
     (let collectionBytes = serializeC collection;
          rootCollection = getRootCollection rootOf db
      in case Collection_Put insertFn rootCollection (name collection) (val collectionBytes) t db of
           (Some err, t1, db1) \<Rightarrow> (Inl err, t1, db1)
         | (None, t1, db1) \<Rightarrow> (Inr collection, t1, db1))"

definition CreateCollection ::
  "(dal \<Rightarrow> Node \<Rightarrow> (error + Node) \<times> dal) \<Rightarrow> (dal \<Rightarrow> pgnum) \<Rightarrow> (Collection \<Rightarrow> Item) \<Rightarrow>
   (Collection \<Rightarrow> byte list \<Rightarrow> byte list \<Rightarrow> tx \<Rightarrow> DB \<Rightarrow> error option \<times> tx \<times> DB) \<Rightarrow>
   tx \<Rightarrow> DB \<Rightarrow> byte list \<Rightarrow> (error + Collection) \<times> tx \<times> DB" where
  "CreateCollection dbWriteNode rootOf serializeC insertFn t db collectionName =
     (if \<not> writeFlag t then (Inl WriteInsideReadTx, t, db)
      else
        (case dbWriteNode (dal db) NewEmptyNode of
           (Inl err, d1) \<Rightarrow> (Inl err, t, db\<lparr>dal := d1\<rparr>)
         | (Inr newCollectionPage, d1) \<Rightarrow>
             (let newCollection = newEmptyCollection;
                  newCollection1 = newCollection\<lparr>name := collectionName\<rparr>;
                  newCollection2 = newCollection1\<lparr>root := pageNum newCollectionPage\<rparr>
              in createCollection' rootOf serializeC insertFn t (db\<lparr>dal := d1\<rparr>) newCollection2)))"

definition DeleteCollection ::
  "(dal \<Rightarrow> pgnum) \<Rightarrow> (Collection \<Rightarrow> byte list \<Rightarrow> tx \<Rightarrow> DB \<Rightarrow> error option \<times> tx \<times> DB) \<Rightarrow>
   tx \<Rightarrow> DB \<Rightarrow> byte list \<Rightarrow> error option \<times> tx \<times> DB" where
  "DeleteCollection rootOf removeFn t db nm =
     (if \<not> writeFlag t then (Some WriteInsideReadTx, t, db)
      else (let rootCollection = getRootCollection rootOf db in removeFn rootCollection nm t db))"

section \<open>The spec's formulas\<close>

text \<open>
  The node size as the spec words it: 3 header bytes, for each item the key length, the
  value length, 2 offset bytes and 8 child-pointer bytes, and 8 bytes for the trailing child
  pointer. It is compared with \<open>nodeSize\<close> below.
\<close>

definition spec_node_size :: "Node \<Rightarrow> int" where
  "spec_node_size n =
     3 + (\<Sum>it\<leftarrow>items n. int (length (key it)) + int (length (val it)) + 2 + 8) + 8"

text \<open>
  The priority order of the rebalancing as the spec words it, from the position \<open>i\<close> of the
  under-populated node, the number of the parent's children and whether each sibling can
  spare an element.
\<close>

datatype action = RotateRight | RotateLeft | MergeWithRight | MergeIntoLeft

definition spec_action :: "int \<Rightarrow> int \<Rightarrow> bool \<Rightarrow> bool \<Rightarrow> action" where
  "spec_action i children leftCanSpare rightCanSpare =
     (if i > 0 \<and> leftCanSpare then RotateRight
      else if i < children - 1 \<and> rightCanSpare then RotateLeft
      else if i = 0 then MergeWithRight
      else MergeIntoLeft)"

text \<open>
  What \<^verbatim>\<open>rebalanceRemove\<close> does in each of its four cases, taken from its branches: it reads
  the sibling, rotates and writes the three nodes, or merges.
\<close>

fun perform :: "action \<Rightarrow> dal \<Rightarrow> Node \<Rightarrow> Node \<Rightarrow> int \<Rightarrow> error + (dal \<times> Node \<times> Node)" where
  "perform RotateRight d parent unabalancedNode i =
     bindE (at (childNodes parent) (i - 1)) (\<lambda>c.
     bindE (getNode d c) (\<lambda>leftNode.
     bindE (rotateRight leftNode unabalancedNode parent i) (\<lambda>(leftNode1, unabalancedNode1, parent1).
       let (d1, written) = writeNodes d [leftNode1, parent1, unabalancedNode1]
       in Inr (d1, written ! 1, written ! 2))))"
| "perform RotateLeft d parent unabalancedNode i =
     bindE (at (childNodes parent) (i + 1)) (\<lambda>c.
     bindE (getNode d c) (\<lambda>rightNode.
     bindE (rotateLeft unabalancedNode rightNode parent i) (\<lambda>(unabalancedNode1, rightNode1, parent1).
       let (d1, written) = writeNodes d [unabalancedNode1, parent1, rightNode1]
       in Inr (d1, written ! 1, written ! 0))))"
| "perform MergeWithRight d parent unabalancedNode i =
     bindE (at (childNodes parent) (i + 1)) (\<lambda>c.
     bindE (getNode d c) (\<lambda>rightNode.
     bindE (merge d parent rightNode (i + 1)) (\<lambda>(d1, parent1).
       Inr (d1, parent1, unabalancedNode))))"
| "perform MergeIntoLeft d parent unabalancedNode i =
     bindE (merge d parent unabalancedNode i) (\<lambda>(d1, parent1).
       Inr (d1, parent1, unabalancedNode))"

text \<open>
  The descent to the in-order predecessor as the spec words it: from a node, repeatedly to
  its last child, down to a leaf. It is compared with \<open>goRight\<close> below.
\<close>

fun spec_goRight :: "nat \<Rightarrow> dal \<Rightarrow> Node \<Rightarrow> (error + Node) option" where
  "spec_goRight fuel d lNode =
     (if \<not> isLeaf lNode then
        (case fuel of
           0 \<Rightarrow> None
         | Suc fuel' \<Rightarrow>
             (case at (childNodes lNode) (int (length (childNodes lNode)) - 1) of
                Inl e \<Rightarrow> Some (Inl e)
              | Inr c \<Rightarrow>
                  (case getNode d c of
                     Inl e \<Rightarrow> Some (Inl e)
                   | Inr lNode' \<Rightarrow> spec_goRight fuel' d lNode')))
      else Some (Inr lNode))"

section \<open>A tree, a transaction and a full page\<close>

text \<open>
  A tree of three levels. The root on page 1 holds the key 102 between the children on
  pages 2 and 3; page 2 holds 98 and 100 between the leaves on pages 4, 5 and 6, which hold
  97, 99 and 101; page 3 is a leaf holding 103.
\<close>

definition item1 :: "byte \<Rightarrow> Item" where
  "item1 k = \<lparr>key = [k], val = [k]\<rparr>"

definition tree_root :: Node where
  "tree_root = \<lparr>pageNum = 1, items = [item1 102], childNodes = [2, 3]\<rparr>"

definition tree_pages :: "pgnum \<Rightarrow> Node option" where
  "tree_pages = map_of
     [(1, tree_root),
      (2, \<lparr>pageNum = 2, items = [item1 98, item1 100], childNodes = [4, 5, 6]\<rparr>),
      (3, \<lparr>pageNum = 3, items = [item1 103], childNodes = []\<rparr>),
      (4, \<lparr>pageNum = 4, items = [item1 97], childNodes = []\<rparr>),
      (5, \<lparr>pageNum = 5, items = [item1 99], childNodes = []\<rparr>),
      (6, \<lparr>pageNum = 6, items = [item1 101], childNodes = []\<rparr>)]"

definition tree_store :: dal where
  "tree_store = \<lparr>pages = tree_pages, freelist = \<lparr>maxPage = 7, releasedPages = []\<rparr>\<rparr>"

text \<open>
  A write transaction in the middle of its work, over the tree above: the leaf on page 5
  is dirty, page 7 was allocated by the transaction and page 4 is to be deleted. Beside it,
  a page store whose node writes fail, one whose node writes succeed and one whose
  free-list write fails.
\<close>

definition busy_tx :: tx where
  "busy_tx = \<lparr>dirtyNodes = [5 \<mapsto> \<lparr>pageNum = 5, items = [item1 99, item1 100], childNodes = []\<rparr>],
              pagesToDelete = [4], allocatedPageNums = [7], writeFlag = True\<rparr>"

definition busy_db :: DB where
  "busy_db = \<lparr>rwlock = \<lparr>readers = 0, writer = True\<rparr>,
              dal = \<lparr>pages = tree_pages, freelist = \<lparr>maxPage = 8, releasedPages = []\<rparr>\<rparr>\<rparr>"

definition failingWriteNode :: "dal \<Rightarrow> Node \<Rightarrow> (error + Node) \<times> dal" where
  "failingWriteNode d node = (Inl IOError, d)"

definition storingWriteNode :: "dal \<Rightarrow> Node \<Rightarrow> (error + Node) \<times> dal" where
  "storingWriteNode d node = (case dal_writeNode d node of (d1, node1) \<Rightarrow> (Inr node1, d1))"

definition failingWriteFreelist :: "dal \<Rightarrow> error option \<times> dal" where
  "failingWriteFreelist d = (Some IOError, d)"

definition storingWriteFreelist :: "dal \<Rightarrow> error option \<times> dal" where
  "storingWriteFreelist d = (None, d)"

section \<open>The layout of a serialized node\<close>

text \<open>
  The layout of a serialized node, for the proofs about \<open>serialize\<close>: the slot of an item
  on the left (its child page number, if the node has children, and the offset of its
  cell), its cell on the right (key length, key, value length, value), and their sizes.
\<close>

definition slotBytes :: "bool \<Rightarrow> pgnum \<Rightarrow> nat \<Rightarrow> byte list" where
  "slotBytes leaf c off = (if leaf then [] else le_bytes 8 c) @ le_bytes 2 (of_nat off :: 16 word)"

definition slotWidth :: "bool \<Rightarrow> nat" where
  "slotWidth leaf = (if leaf then 2 else 10)"

definition cellBytes :: "Item \<Rightarrow> byte list" where
  "cellBytes it = [of_nat (length (key it))] @ key it @ [of_nat (length (val it))] @ val it"

definition cellSize :: "Item \<Rightarrow> nat" where
  "cellSize it = length (key it) + length (val it) + 2"

definition cellsSize :: "Item list \<Rightarrow> nat" where
  "cellsSize its = sum_list (map cellSize its)"

text \<open>
  A node as C3 takes it to be valid for a page of \<open>pageSize\<close> bytes: keys and values of at
  most 255 bytes, a serialized size of at most the page size, and child page numbers that
  are none or one more than the items.
\<close>

definition validNode :: "nat \<Rightarrow> Node \<Rightarrow> bool" where
  "validNode pageSize n =
     ((\<forall>it\<in>set (items n). length (key it) \<le> 255 \<and> length (val it) \<le> 255)
      \<and> serializedSize n \<le> int pageSize
      \<and> (childNodes n = [] \<or> length (childNodes n) = length (items n) + 1))"

text \<open>
  A node that fills a page of 4096 bytes exactly: seven items with keys and values of 255
  bytes, an eighth with a key of 255 and a value of 164 bytes, and nine children. Its
  serialized size is 3 + 8 * 10 + 8 header, offset and child bytes and 4005 cell bytes.
\<close>

definition big_item :: "byte \<Rightarrow> Item" where
  "big_item k = \<lparr>key = replicate 255 k, val = replicate 255 (k + 1)\<rparr>"

definition last_item :: Item where
  "last_item = \<lparr>key = replicate 255 15, val = replicate 164 16\<rparr>"

definition first_items :: "Item list" where
  "first_items = [big_item 1, big_item 3, big_item 5, big_item 7, big_item 9, big_item 11, big_item 13]"

definition full_node :: Node where
  "full_node = \<lparr>pageNum = 9, items = first_items @ [last_item],
                 childNodes = [10, 11, 12, 13, 14, 15, 16, 17, 18]\<rparr>"

definition misread_item :: Item where
  "misread_item = \<lparr>key = [], val = replicate 15 15\<rparr>"

section \<open>Properties\<close>

subsection \<open>Results and slices\<close>

lemma bindE_Inr [simp]: "bindE (Inr x) f = f x"
  by (simp add: bindE_def)

lemma bindE_Inl [simp]: "bindE (Inl e) f = Inl e"
  by (simp add: bindE_def)

lemma at_in_range: "0 \<le> i \<Longrightarrow> i < int (length xs) \<Longrightarrow> at xs i = Inr (xs ! nat i)"
  by (simp add: at_def)

subsection \<open>The size of a node\<close>

lemma nodeSizeLoop_sum:
  "\<forall>i\<in>set is. i < length (items n) \<Longrightarrow>
   nodeSizeLoop n is sz =
     Inr (sz + (\<Sum>i\<leftarrow>is. int (length (key (items n ! i))) + int (length (val (items n ! i))) + 8))"
proof (induction "is" arbitrary: sz)
  case Nil
  then show ?case by simp
next
  case (Cons i "is")
  then show ?case
    by (simp add: elementSize_def at_in_range pageNumSize_def)
qed

lemma sum_list_nth_upt:
  "(\<Sum>i\<leftarrow>[0..<length xs]. f (xs ! i)) = (\<Sum>x\<leftarrow>xs. (f x :: int))"
proof -
  have "map (\<lambda>i. f (xs ! i)) [0..<length xs] = map f (map (\<lambda>i. xs ! i) [0..<length xs])"
    by simp
  then show ?thesis by (simp only: map_nth)
qed

lemma nodeSize_sum_list:
  "nodeSize n =
     Inr (3 + (\<Sum>it\<leftarrow>items n. int (length (key it)) + int (length (val it)) + 8) + 8)"
proof -
  have "nodeSizeLoop n [0..<length (items n)] 3 =
          Inr (3 + (\<Sum>i\<leftarrow>[0..<length (items n)].
                 int (length (key (items n ! i))) + int (length (val (items n ! i))) + 8))"
    by (rule nodeSizeLoop_sum) simp
  then show ?thesis
    by (simp add: nodeSize_def nodeHeaderSize_def pageNumSize_def
        sum_list_nth_upt [where f = "\<lambda>it. int (length (key it)) + int (length (val it)) + 8"])
qed

text \<open>
  C2, as the code has it: \<open>nodeSize\<close> is the 3 header bytes, plus for each item the key
  length, the value length and 8 child-pointer bytes, plus 8 bytes for the trailing child
  pointer. It counts no offset bytes.
\<close>

theorem nodeSize_formula:
  "nodeSize n =
     Inr (3 + (\<Sum>it\<leftarrow>items n. int (length (key it)) + int (length (val it)) + 8) + 8)"
  by (rule nodeSize_sum_list)

text \<open>
  C2 as stated, with 2 offset bytes for each item, fails on a leaf with one item, a key of
  one byte and a value of one byte: the code gives 21, the stated formula 23.
\<close>

theorem nodeSize_offset_bytes_counterexample:
  "nodeSize \<lparr>pageNum = 2, items = [\<lparr>key = [107], val = [118]\<rparr>], childNodes = []\<rparr>
     \<noteq> Inr (spec_node_size \<lparr>pageNum = 2, items = [\<lparr>key = [107], val = [118]\<rparr>], childNodes = []\<rparr>)"
  by (simp add: nodeSize_def nodeHeaderSize_def pageNumSize_def elementSize_def at_def
      spec_node_size_def)

subsection \<open>Rotation to the right\<close>

lemma sliceTo_in_range:
  "0 \<le> i \<Longrightarrow> i \<le> int (length xs) \<Longrightarrow> sliceTo xs i = Inr (take (nat i) xs)"
  by (simp add: sliceTo_def)

lemma sliceFrom_in_range:
  "0 \<le> i \<Longrightarrow> i \<le> int (length xs) \<Longrightarrow> sliceFrom xs i = Inr (drop (nat i) xs)"
  by (simp add: sliceFrom_def)

lemma setAt_in_range:
  "0 \<le> i \<Longrightarrow> i < int (length xs) \<Longrightarrow> setAt xs i v = Inr (xs[nat i := v])"
  by (simp add: setAt_def)

lemma at_last: "xs \<noteq> [] \<Longrightarrow> at xs (int (length xs) - 1) = Inr (last xs)"
  by (cases xs rule: rev_cases) (simp_all add: at_def nat_diff_distrib')

lemma sliceTo_butlast: "xs \<noteq> [] \<Longrightarrow> sliceTo xs (int (length xs) - 1) = Inr (butlast xs)"
  by (cases xs rule: rev_cases) (simp_all add: sliceTo_def)

text \<open>
  C7: for a parent whose child pointers number one more than its items, a right node at
  \<open>rightNodeIndex\<close> with a non-empty left sibling before it, \<open>rotateRight\<close> removes the last
  item of the left node, puts the parent's item at \<open>rightNodeIndex - 1\<close> (clamped to 0) at
  the front of the right node's items and the removed item in its place in the parent, and
  if the left node is not a leaf moves its last child pointer to the front of the right
  node's; page numbers, the parent's child pointers and every other item stay as they were.
\<close>

theorem rotateRight_effect:
  assumes "items leftNode \<noteq> []"
    and "1 \<le> rightNodeIndex"
    and "rightNodeIndex < int (length (childNodes parentNode))"
    and "length (childNodes parentNode) = length (items parentNode) + 1"
  shows "rotateRight leftNode rightNode parentNode rightNodeIndex =
     Inr (leftNode\<lparr>items := butlast (items leftNode),
                   childNodes := (if isLeaf leftNode then childNodes leftNode
                                  else butlast (childNodes leftNode))\<rparr>,
          rightNode\<lparr>items := items parentNode ! nat (max 0 (rightNodeIndex - 1)) # items rightNode,
                    childNodes := (if isLeaf leftNode then childNodes rightNode
                                   else last (childNodes leftNode) # childNodes rightNode)\<rparr>,
          parentNode\<lparr>items := (items parentNode)
                      [nat (max 0 (rightNodeIndex - 1)) := last (items leftNode)]\<rparr>)"
proof -
  have idx: "0 \<le> rightNodeIndex - 1" "rightNodeIndex - 1 < int (length (items parentNode))"
    using assms by simp_all
  have pidx: "(if isFirst (rightNodeIndex - 1) then 0 else rightNodeIndex - 1) = rightNodeIndex - 1"
    by (simp add: isFirst_def)
  have mx: "max 0 (rightNodeIndex - 1) = rightNodeIndex - 1"
    using idx by simp
  have pAt: "at (items parentNode) (rightNodeIndex - 1) =
               Inr (items parentNode ! nat (rightNodeIndex - 1))"
    using idx by (rule at_in_range)
  have pSet: "setAt (items parentNode) (rightNodeIndex - 1) v =
                Inr ((items parentNode)[nat (rightNodeIndex - 1) := v])" for v
    using idx by (rule setAt_in_range)
  note lAt = at_last [OF assms(1)] and lTo = sliceTo_butlast [OF assms(1)]
  show ?thesis
  proof (cases "isLeaf leftNode")
    case True
    then show ?thesis
      by (simp add: rotateRight_def Let_def pidx mx lAt lTo pAt pSet isLeaf_def)
  next
    case False
    then have "childNodes leftNode \<noteq> []"
      by (simp add: isLeaf_def)
    with False show ?thesis
      by (simp add: rotateRight_def Let_def pidx mx lAt lTo pAt pSet isLeaf_def
          at_last sliceTo_butlast)
  qed
qed

theorem rotateRight_effect_witness:
  "rotateRight
     \<lparr>pageNum = 4, items = [\<lparr>key = [1], val = [1]\<rparr>, \<lparr>key = [2], val = [2]\<rparr>], childNodes = [7, 8, 9]\<rparr>
     \<lparr>pageNum = 5, items = [\<lparr>key = [4], val = [4]\<rparr>], childNodes = [10, 11]\<rparr>
     \<lparr>pageNum = 3, items = [\<lparr>key = [3], val = [3]\<rparr>, \<lparr>key = [5], val = [5]\<rparr>], childNodes = [4, 5, 6]\<rparr>
     1 =
   Inr (\<lparr>pageNum = 4, items = [\<lparr>key = [1], val = [1]\<rparr>], childNodes = [7, 8]\<rparr>,
        \<lparr>pageNum = 5, items = [\<lparr>key = [3], val = [3]\<rparr>, \<lparr>key = [4], val = [4]\<rparr>], childNodes = [9, 10, 11]\<rparr>,
        \<lparr>pageNum = 3, items = [\<lparr>key = [2], val = [2]\<rparr>, \<lparr>key = [5], val = [5]\<rparr>], childNodes = [4, 5, 6]\<rparr>)"
  using rotateRight_effect [of
     "\<lparr>pageNum = 4, items = [\<lparr>key = [1], val = [1]\<rparr>, \<lparr>key = [2], val = [2]\<rparr>], childNodes = [7, 8, 9]\<rparr>"
     1
     "\<lparr>pageNum = 3, items = [\<lparr>key = [3], val = [3]\<rparr>, \<lparr>key = [5], val = [5]\<rparr>], childNodes = [4, 5, 6]\<rparr>"
     "\<lparr>pageNum = 5, items = [\<lparr>key = [4], val = [4]\<rparr>], childNodes = [10, 11]\<rparr>"]
  by (simp add: isLeaf_def)

subsection \<open>Splitting a node\<close>

lemma insert_by_append:
  "i < length xs \<Longrightarrow> (take (Suc i) xs @ drop i xs)[i := v] = take i xs @ [v] @ drop i xs"
  by (simp add: list_update_append take_Suc_conv_app_nth)

lemma insert_after_by_append:
  "Suc i < length xs \<Longrightarrow>
   (take (Suc i) xs @ drop i xs)[Suc i := v] = take (Suc i) xs @ [v] @ drop (Suc i) xs"
  by (simp add: list_update_append Cons_nth_drop_Suc [symmetric])

lemma addItem_insert:
  assumes "0 \<le> i" "i \<le> int (length (items n))"
  shows "addItem n it i = Inr (n\<lparr>items := take (nat i) (items n) @ [it] @ drop (nat i) (items n)\<rparr>)"
proof (cases "int (length (items n)) = i")
  case True
  then show ?thesis by (auto simp add: addItem_def)
next
  case False
  with assms have lt: "nat i < length (items n)" by simp
  have suc: "nat (i + 1) = Suc (nat i)" using assms by simp
  from False assms lt show ?thesis
    by (simp add: addItem_def sliceTo_in_range sliceFrom_in_range setAt_in_range suc
        insert_by_append)
qed

lemma insertChild_mid:
  assumes "0 \<le> i" "i < int (length cs)" "int (length cs) \<noteq> i + 1"
  shows "bindE (sliceTo cs (i + 1)) (\<lambda>front. bindE (sliceFrom cs i) (\<lambda>back.
           setAt (front @ back) (i + 1) p))
         = Inr (take (nat i + 1) cs @ [p] @ drop (nat i + 1) cs)"
proof -
  from assms have lt: "Suc (nat i) < length cs" by linarith
  have suc: "nat (i + 1) = Suc (nat i)" using assms by simp
  from assms lt show ?thesis
    by (simp add: sliceTo_in_range sliceFrom_in_range setAt_in_range suc
        insert_after_by_append)
qed

lemma insertChild_last:
  assumes "0 \<le> i" "int (length cs) = i + 1"
  shows "cs @ [p] = take (nat i + 1) cs @ [p] @ drop (nat i + 1) cs"
proof -
  from assms have "length cs = nat i + 1" by linarith
  then show ?thesis by simp
qed

lemma writeNode_fields [simp]:
  "items (snd (writeNode d n)) = items n"
  "childNodes (snd (writeNode d n)) = childNodes n"
  by (simp_all add: writeNode_def dal_writeNode_def Let_def split_beta)

lemma writeNodes_length [simp]: "length (snd (writeNodes d ns)) = length ns"
  by (induction ns arbitrary: d) (simp_all add: split_beta Let_def)

lemma writeNodes_fields:
  "i < length ns \<Longrightarrow> items (snd (writeNodes d ns) ! i) = items (ns ! i)"
  "i < length ns \<Longrightarrow> childNodes (snd (writeNodes d ns) ! i) = childNodes (ns ! i)"
proof (induction ns arbitrary: d i)
  case Nil
  { case 1 then show ?case by simp }
  { case 2 then show ?case by simp }
next
  case (Cons n ns)
  { case 1 then show ?case by (cases i) (simp_all add: split_beta Let_def Cons.IH) }
  { case 2 then show ?case by (cases i) (simp_all add: split_beta Let_def Cons.IH) }
qed

text \<open>
  C5: for a child whose split index \<open>s\<close> is an index of its items, at position \<open>idx\<close> of a
  parent whose child pointers number one more than its items, \<open>split\<close> succeeds and gives a
  new node holding the child's items after \<open>s\<close> and, if the child is not a leaf, its child
  pointers from \<open>s + 1\<close> on; the child keeps its items before \<open>s\<close> and its child pointers up
  to \<open>s\<close>; the parent gets the child's item \<open>s\<close> at position \<open>idx\<close> and the new node's page
  number at position \<open>idx + 1\<close> of its child pointers.
\<close>

theorem split_effect:
  assumes s: "getSplitIndex child = s" "0 \<le> s" "s < int (length (items child))"
    and ch: "\<not> isLeaf child \<Longrightarrow> length (childNodes child) = length (items child) + 1"
    and idx: "0 \<le> idx" "idx < int (length (childNodes n))"
      "length (childNodes n) = length (items n) + 1"
  shows "\<exists>d' n' child' newNode.
     split d getSplitIndex n child idx = Inr (d', n', child', newNode)
     \<and> items newNode = drop (nat s + 1) (items child)
     \<and> childNodes newNode = (if isLeaf child then [] else drop (nat s + 1) (childNodes child))
     \<and> items child' = take (nat s) (items child)
     \<and> childNodes child' = take (nat s + 1) (childNodes child)
     \<and> items n' = take (nat idx) (items n) @ [items child ! nat s] @ drop (nat idx) (items n)
     \<and> childNodes n' = take (nat idx + 1) (childNodes n) @ [pageNum newNode]
                         @ drop (nat idx + 1) (childNodes n)"
proof -
  have mid: "at (items child) s = Inr (items child ! nat s)"
    using s by (simp add: at_in_range)
  have suc: "nat (s + 1) = nat s + 1" using s by simp
  have itsFrom: "sliceFrom (items child) (s + 1) = Inr (drop (nat s + 1) (items child))"
    using s by (simp add: sliceFrom_in_range suc)
  have itsTo: "sliceTo (items child) s = Inr (take (nat s) (items child))"
    using s by (simp add: sliceTo_in_range)
  have add: "addItem n (items child ! nat s) idx =
       Inr (n\<lparr>items := take (nat idx) (items n) @ [items child ! nat s] @ drop (nat idx) (items n)\<rparr>)"
    using idx by (intro addItem_insert) simp_all
  show ?thesis
  proof (cases "int (length (childNodes n)) = idx + 1")
    case last: True
    then have len: "length (childNodes n) = Suc (nat idx)"
      using idx by linarith
    show ?thesis
    proof (cases "isLeaf child")
      case True
      then have nil: "childNodes child = []" by (simp add: isLeaf_def)
      show ?thesis
        using True last len
        by (simp add: split_def s(1) mid itsFrom itsTo add Let_def split_beta nil
            dal_newNode_def writeNodes_fields del: writeNodes.simps)
    next
      case False
      from ch [OF False] s
      have csFrom: "sliceFrom (childNodes child) (s + 1) = Inr (drop (nat s + 1) (childNodes child))"
        and csTo: "sliceTo (childNodes child) (s + 1) = Inr (take (nat s + 1) (childNodes child))"
        by (simp_all add: sliceFrom_in_range sliceTo_in_range suc)
      show ?thesis
        using False last len
        by (simp add: split_def s(1) mid itsFrom itsTo csFrom csTo add Let_def split_beta
            dal_newNode_def writeNodes_fields del: writeNodes.simps)
    qed
  next
    case mid': False
    note ins = insertChild_mid [OF idx(1) idx(2) mid']
    show ?thesis
    proof (cases "isLeaf child")
      case True
      then have nil: "childNodes child = []" by (simp add: isLeaf_def)
      show ?thesis
        using True mid'
        by (simp add: split_def s(1) mid itsFrom itsTo add Let_def split_beta nil
            dal_newNode_def writeNodes_fields ins del: writeNodes.simps)
    next
      case False
      from ch [OF False] s
      have csFrom: "sliceFrom (childNodes child) (s + 1) = Inr (drop (nat s + 1) (childNodes child))"
        and csTo: "sliceTo (childNodes child) (s + 1) = Inr (take (nat s + 1) (childNodes child))"
        by (simp_all add: sliceFrom_in_range sliceTo_in_range suc)
      show ?thesis
        using False mid'
        by (simp add: split_def s(1) mid itsFrom itsTo csFrom csTo add Let_def split_beta
            dal_newNode_def writeNodes_fields ins del: writeNodes.simps)
    qed
  qed
qed


theorem split_effect_witness:
  "\<exists>d' n' child' newNode.
     split tree_store (\<lambda>_. 1)
       \<lparr>pageNum = 1, items = [item1 102], childNodes = [2, 3]\<rparr>
       \<lparr>pageNum = 2, items = [item1 97, item1 98, item1 99], childNodes = [4, 5, 6, 7]\<rparr> 0
       = Inr (d', n', child', newNode)
     \<and> items newNode = [item1 99] \<and> childNodes newNode = [6, 7]
     \<and> items child' = [item1 97] \<and> childNodes child' = [4, 5]
     \<and> items n' = [item1 98, item1 102] \<and> childNodes n' = [2, pageNum newNode, 3]"
  using split_effect [of "\<lambda>_. 1"
      "\<lparr>pageNum = 2, items = [item1 97, item1 98, item1 99], childNodes = [4, 5, 6, 7]\<rparr>" 1 0
      "\<lparr>pageNum = 1, items = [item1 102], childNodes = [2, 3]\<rparr>" tree_store]
  by (simp add: isLeaf_def)

subsection \<open>Rebalancing after a removal\<close>

text \<open>
  C6: for a node at position \<open>i\<close> of its parent, with the siblings beside it readable,
  \<open>rebalanceRemove\<close> does what the priority order says: it rotates right if \<open>i > 0\<close> and the
  left sibling can spare an element, else rotates left if \<open>i\<close> is below the last position
  and the right sibling can spare one, else merges with the right sibling if \<open>i = 0\<close> and
  otherwise merges the node into its left sibling.
\<close>

theorem rebalanceRemove_priority:
  assumes "0 \<le> i" "i < int (length (childNodes parent))"
    and "0 < i \<Longrightarrow> getNode d (childNodes parent ! nat (i - 1)) = Inr leftNode"
    and "i < int (length (childNodes parent)) - 1 \<Longrightarrow>
           getNode d (childNodes parent ! nat (i + 1)) = Inr rightNode"
  shows "rebalanceRemove d getSplitIndex parent unabalancedNode i =
     perform (spec_action i (int (length (childNodes parent)))
                (canSpareAnElement getSplitIndex leftNode)
                (canSpareAnElement getSplitIndex rightNode))
       d parent unabalancedNode i"
proof -
  have L: "at (childNodes parent) (i - 1) = Inr (childNodes parent ! nat (i - 1))" if "0 < i"
    using that assms(2) by (simp add: at_def)
  have R: "at (childNodes parent) (i + 1) = Inr (childNodes parent ! nat (i + 1))"
    if "i < int (length (childNodes parent)) - 1"
    using that assms(1) by (simp add: at_def)
  consider (first) "i = 0" "i < int (length (childNodes parent)) - 1"
    | (only) "i = 0" "i = int (length (childNodes parent)) - 1"
    | (middle) "0 < i" "i < int (length (childNodes parent)) - 1"
    | (last) "0 < i" "i = int (length (childNodes parent)) - 1"
    using assms(1,2) by linarith
  then show ?thesis
  proof cases
    case first
    then show ?thesis
      using R [OF first(2)] assms(4) [OF first(2)]
      by (simp add: rebalanceRemove_def rebalanceRemoveWith_def spec_action_def Let_def
          split_beta bindE_def del: writeNodes.simps bindE_Inl bindE_Inr split: sum.splits)
  next
    case only
    then show ?thesis
      by (simp add: rebalanceRemove_def rebalanceRemoveWith_def spec_action_def Let_def)
  next
    case middle
    then show ?thesis
      using L [OF middle(1)] assms(3) [OF middle(1)] R [OF middle(2)] assms(4) [OF middle(2)]
      by (simp add: rebalanceRemove_def rebalanceRemoveWith_def spec_action_def Let_def
          split_beta bindE_def del: writeNodes.simps bindE_Inl bindE_Inr split: sum.splits)
  next
    case last
    then show ?thesis
      using L [OF last(1)] assms(3) [OF last(1)]
      by (simp add: rebalanceRemove_def rebalanceRemoveWith_def spec_action_def Let_def
          split_beta bindE_def del: writeNodes.simps bindE_Inl bindE_Inr split: sum.splits)
  qed
qed


theorem rebalanceRemove_priority_witness:
  "rebalanceRemove tree_store (\<lambda>n. if 2 \<le> length (items n) then 0 else - 1)
     \<lparr>pageNum = 2, items = [item1 98, item1 100], childNodes = [4, 5, 6]\<rparr>
     \<lparr>pageNum = 5, items = [], childNodes = []\<rparr> 1
   = perform MergeIntoLeft tree_store
       \<lparr>pageNum = 2, items = [item1 98, item1 100], childNodes = [4, 5, 6]\<rparr>
       \<lparr>pageNum = 5, items = [], childNodes = []\<rparr> 1"
  using rebalanceRemove_priority [of 1
      "\<lparr>pageNum = 2, items = [item1 98, item1 100], childNodes = [4, 5, 6]\<rparr>"
      tree_store
      "\<lparr>pageNum = 4, items = [item1 97], childNodes = []\<rparr>"
      "\<lparr>pageNum = 6, items = [item1 101], childNodes = []\<rparr>"
      "\<lambda>n. if 2 \<le> length (items n) then 0 else - 1"
      "\<lparr>pageNum = 5, items = [], childNodes = []\<rparr>"]
  by (simp add: getNode_def dal_getNode_def tree_store_def tree_pages_def spec_action_def
      canSpareAnElement_def)

lemma merge_in_bounds:
  assumes "1 \<le> k" "k < int (length (childNodes n))"
    and "length (childNodes n) = length (items n) + 1"
  shows "merge d n b k \<noteq> Inl Panic"
proof -
  have c: "at (childNodes n) (k - 1) = Inr (childNodes n ! nat (k - 1))"
    using assms by (simp add: at_def)
  have i: "at (items n) (k - 1) = Inr (items n ! nat (k - 1))"
    using assms by (simp add: at_def)
  have s1: "sliceTo (items n) (k - 1) = Inr (take (nat (k - 1)) (items n))"
    using assms by (simp add: sliceTo_def)
  have s2: "sliceFrom (items n) k = Inr (drop (nat k) (items n))"
    using assms by (simp add: sliceFrom_def)
  have s3: "sliceTo (childNodes n) k = Inr (take (nat k) (childNodes n))"
    using assms by (simp add: sliceTo_def)
  have s4: "sliceFrom (childNodes n) (k + 1) = Inr (drop (nat (k + 1)) (childNodes n))"
    using assms by (simp add: sliceFrom_def)
  show ?thesis
    by (simp add: merge_def c i s1 s2 s3 s4 Let_def split_beta getNode_def dal_getNode_def
        del: writeNodes.simps split: option.splits)
qed

lemma bindE_cong_Inr: "(\<And>x. m = Inr x \<Longrightarrow> f x = g x) \<Longrightarrow> bindE m f = bindE m g"
  by (cases m) simp_all

lemma rebalanceRemoveWith_cong:
  assumes fg: "\<And>d' b k. 1 \<le> k \<Longrightarrow> k < int (length (childNodes n)) \<Longrightarrow> f d' n b k = g d' n b k"
  shows "rebalanceRemoveWith f d getSplitIndex n u i = rebalanceRemoveWith g d getSplitIndex n u i"
  unfolding rebalanceRemoveWith_def Let_def
proof (rule bindE_cong_Inr, goal_cases)
  case first: (1 r1)
  have lo: "1 \<le> i \<and> i \<le> int (length (childNodes n))" if "i \<noteq> 0"
  proof -
    from first that have "at (childNodes n) (i - 1) \<noteq> Inl Panic"
      by (auto simp add: bindE_def split: sum.splits)
    then show ?thesis by (simp add: at_def split: if_splits)
  qed
  show ?case
  proof (cases r1)
    case (Some res)
    then show ?thesis by simp
  next
    case None
    show ?thesis
      unfolding None option.case
    proof (rule bindE_cong_Inr, goal_cases)
      case second: (1 r2)
      have hi: "i < int (length (childNodes n))" if "i \<noteq> 0"
      proof (cases "i = int (length (childNodes n)) - 1")
        case True
        then show ?thesis by simp
      next
        case False
        with second have "at (childNodes n) (i + 1) \<noteq> Inl Panic"
          by (auto simp add: bindE_def split: sum.splits)
        then show ?thesis by (simp add: at_def split: if_splits)
      qed
      have left: "f d n u i = g d n u i" if "i \<noteq> 0"
        using lo [OF that] hi [OF that] by (intro fg) simp_all
      have right: "bindE (at (childNodes n) 1) (\<lambda>c. bindE (getNode d c) (\<lambda>rightNode. h (f d n rightNode 1))) =
                   bindE (at (childNodes n) 1) (\<lambda>c. bindE (getNode d c) (\<lambda>rightNode. h (g d n rightNode 1)))"
        for h :: "error + dal \<times> Node \<Rightarrow> error + dal \<times> Node \<times> Node"
      proof (rule bindE_cong_Inr, goal_cases)
        case (1 c)
        then have "1 < int (length (childNodes n))"
          by (simp add: at_def split: if_splits)
        then have "f d n b 1 = g d n b 1" for b
          by (intro fg) simp_all
        then show ?case by simp
      qed
      show ?case
      proof (cases r2)
        case (Some res)
        then show ?thesis by simp
      next
        case None
        show ?thesis
        proof (cases "i = 0")
          case True
          with right [of "\<lambda>m. bindE m (\<lambda>(d1, parent1). Inr (d1, parent1, u))"]
          show ?thesis unfolding None by simp
        next
          case False
          with left show ?thesis unfolding None by simp
        qed
      qed
    qed
  qed
qed

text \<open>
  C10: \<open>rebalanceRemove\<close> calls \<open>merge\<close> on its parent \<open>n\<close> only with an index \<open>k\<close> that is at
  least 1 and below the number of the parent's child pointers: replacing \<open>merge\<close> by any
  function that agrees with it on those indexes changes nothing. With such an index, on a
  parent whose child pointers number one more than its items, \<open>merge\<close> does not panic: its
  accesses at \<open>k - 1\<close> and its slices are in bounds.
\<close>

theorem rebalanceRemove_merge_index:
  "(\<forall>mergeFn.
      (\<forall>d' b k. 1 \<le> k \<and> k < int (length (childNodes n)) \<longrightarrow> mergeFn d' n b k = merge d' n b k)
      \<longrightarrow> rebalanceRemoveWith mergeFn d getSplitIndex n unabalancedNode i
          = rebalanceRemove d getSplitIndex n unabalancedNode i)
   \<and> (\<forall>d' b k. 1 \<le> k \<and> k < int (length (childNodes n))
         \<and> length (childNodes n) = length (items n) + 1
         \<longrightarrow> merge d' n b k \<noteq> Inl Panic)"
proof (intro conjI allI impI)
  fix mergeFn
  assume "\<forall>d' b k. 1 \<le> k \<and> k < int (length (childNodes n)) \<longrightarrow> mergeFn d' n b k = merge d' n b k"
  then show "rebalanceRemoveWith mergeFn d getSplitIndex n unabalancedNode i
          = rebalanceRemove d getSplitIndex n unabalancedNode i"
    unfolding rebalanceRemove_def by (intro rebalanceRemoveWith_cong) simp
next
  fix d' b k
  assume "1 \<le> k \<and> k < int (length (childNodes n))
         \<and> length (childNodes n) = length (items n) + 1"
  then show "merge d' n b k \<noteq> Inl Panic"
    by (intro merge_in_bounds) simp_all
qed


theorem rebalanceRemove_merge_index_witness:
  "rebalanceRemoveWith
     (\<lambda>d' p b k. if 1 \<le> k \<and> k < int (length (childNodes p)) then merge d' p b k else Inl Panic)
     tree_store (\<lambda>n. - 1)
     \<lparr>pageNum = 2, items = [item1 98, item1 100], childNodes = [4, 5, 6]\<rparr>
     \<lparr>pageNum = 5, items = [], childNodes = []\<rparr> 1
   = rebalanceRemove tree_store (\<lambda>n. - 1)
     \<lparr>pageNum = 2, items = [item1 98, item1 100], childNodes = [4, 5, 6]\<rparr>
     \<lparr>pageNum = 5, items = [], childNodes = []\<rparr> 1
   \<and> merge tree_store \<lparr>pageNum = 2, items = [item1 98, item1 100], childNodes = [4, 5, 6]\<rparr>
       \<lparr>pageNum = 5, items = [], childNodes = []\<rparr> 1 \<noteq> Inl Panic
   \<and> \<not> isl (rebalanceRemove tree_store (\<lambda>n. - 1)
     \<lparr>pageNum = 2, items = [item1 98, item1 100], childNodes = [4, 5, 6]\<rparr>
     \<lparr>pageNum = 5, items = [], childNodes = []\<rparr> 1)"
proof -
  note t = rebalanceRemove_merge_index [of
      "\<lparr>pageNum = 2, items = [item1 98, item1 100], childNodes = [4, 5, 6]\<rparr>"
      tree_store "\<lambda>n. - 1" "\<lparr>pageNum = 5, items = [], childNodes = []\<rparr>" 1]
  have a: "rebalanceRemoveWith
     (\<lambda>d' p b k. if 1 \<le> k \<and> k < int (length (childNodes p)) then merge d' p b k else Inl Panic)
     tree_store (\<lambda>n. - 1)
     \<lparr>pageNum = 2, items = [item1 98, item1 100], childNodes = [4, 5, 6]\<rparr>
     \<lparr>pageNum = 5, items = [], childNodes = []\<rparr> 1
   = rebalanceRemove tree_store (\<lambda>n. - 1)
     \<lparr>pageNum = 2, items = [item1 98, item1 100], childNodes = [4, 5, 6]\<rparr>
     \<lparr>pageNum = 5, items = [], childNodes = []\<rparr> 1"
    using t [THEN conjunct1,
        THEN spec [where x = "\<lambda>d' p b k. if 1 \<le> k \<and> k < int (length (childNodes p))
                                     then merge d' p b k else Inl Panic"]]
    by simp
  have b: "merge tree_store \<lparr>pageNum = 2, items = [item1 98, item1 100], childNodes = [4, 5, 6]\<rparr>
       \<lparr>pageNum = 5, items = [], childNodes = []\<rparr> 1 \<noteq> Inl Panic"
    using t [THEN conjunct2, THEN spec [where x = tree_store],
        THEN spec [where x = "\<lparr>pageNum = 5, items = [], childNodes = []\<rparr>"],
        THEN spec [where x = 1]]
    by simp
  have c: "\<not> isl (rebalanceRemove tree_store (\<lambda>n. - 1)
     \<lparr>pageNum = 2, items = [item1 98, item1 100], childNodes = [4, 5, 6]\<rparr>
     \<lparr>pageNum = 5, items = [], childNodes = []\<rparr> 1)"
    by (simp add: rebalanceRemove_def rebalanceRemoveWith_def canSpareAnElement_def at_def
        getNode_def dal_getNode_def tree_store_def tree_pages_def merge_def sliceTo_def
        sliceFrom_def Let_def writeNode_def dal_writeNode_def dal_deleteNode_def isLeaf_def)
  from a b c show ?thesis by simp
qed

subsection \<open>Removing an item from an internal node\<close>

text \<open>
  C1 does not hold of the code: on the tree above, removing the root's item at index 0,
  the descent from page 2 goes to its child at index 1, the last index of the root's two
  children, and not to its last child. The item written into the root is 99, taken from
  page 5; the in-order predecessor is 101 on page 6, where the descent by last children
  ends.
\<close>

theorem removeItemFromInternal_takes_wrong_leaf:
  "removeItemFromInternal 2 tree_store tree_root 0 =
     Some (Inr (tree_store\<lparr>pages := (pages tree_store)
                  (1 \<mapsto> \<lparr>pageNum = 1, items = [item1 99], childNodes = [2, 3]\<rparr>,
                   5 \<mapsto> \<lparr>pageNum = 5, items = [], childNodes = []\<rparr>)\<rparr>,
                \<lparr>pageNum = 1, items = [item1 99], childNodes = [2, 3]\<rparr>,
                \<lparr>pageNum = 5, items = [], childNodes = []\<rparr>,
                [0, 1]))
   \<and> spec_goRight 2 tree_store \<lparr>pageNum = 2, items = [item1 98, item1 100], childNodes = [4, 5, 6]\<rparr> =
     Some (Inr \<lparr>pageNum = 6, items = [item1 101], childNodes = []\<rparr>)"
  by (simp add: removeItemFromInternal_def tree_store_def tree_root_def tree_pages_def at_def
      getNode_def dal_getNode_def isLeaf_def setAt_def sliceTo_def Let_def writeNode_def
      dal_writeNode_def)

subsection \<open>Transactions\<close>

text \<open>
  C9: on a read-only transaction \<open>CreateCollection\<close>, \<open>DeleteCollection\<close> and a put on a
  collection each fail with \<open>WriteInsideReadTx\<close> and return the transaction and the store
  as they were.
\<close>

theorem read_tx_rejects_mutation:
  assumes "\<not> writeFlag t"
  shows "CreateCollection dbWriteNode rootOf serializeC insertFn t db nm
           = (Inl WriteInsideReadTx, t, db)
       \<and> DeleteCollection rootOf removeFn t db nm = (Some WriteInsideReadTx, t, db)
       \<and> Collection_Put insertFn c k v t db = (Some WriteInsideReadTx, t, db)"
  using assms by (simp add: CreateCollection_def DeleteCollection_def Collection_Put_def)

theorem read_tx_rejects_mutation_witness:
  "CreateCollection storingWriteNode (\<lambda>d. 1) (\<lambda>c. item1 0) (\<lambda>c k v t db. (None, t, db))
       (newTx False) (busy_db\<lparr>rwlock := \<lparr>readers = 1, writer = False\<rparr>\<rparr>) [99]
     = (Inl WriteInsideReadTx, newTx False, busy_db\<lparr>rwlock := \<lparr>readers = 1, writer = False\<rparr>\<rparr>)
   \<and> DeleteCollection (\<lambda>d. 1) (\<lambda>c k t db. (None, t, db))
       (newTx False) (busy_db\<lparr>rwlock := \<lparr>readers = 1, writer = False\<rparr>\<rparr>) [99]
     = (Some WriteInsideReadTx, newTx False, busy_db\<lparr>rwlock := \<lparr>readers = 1, writer = False\<rparr>\<rparr>)
   \<and> Collection_Put (\<lambda>c k v t db. (None, t, db)) \<lparr>name = [99], root = 3\<rparr> [1] [2]
       (newTx False) (busy_db\<lparr>rwlock := \<lparr>readers = 1, writer = False\<rparr>\<rparr>)
     = (Some WriteInsideReadTx, newTx False, busy_db\<lparr>rwlock := \<lparr>readers = 1, writer = False\<rparr>\<rparr>)"
  using read_tx_rejects_mutation [of "newTx False" storingWriteNode "\<lambda>d. 1" "\<lambda>c. item1 0"
      "\<lambda>c k v t db. (None, t, db)" "busy_db\<lparr>rwlock := \<lparr>readers = 1, writer = False\<rparr>\<rparr>" "[99]"
      "\<lambda>c k t db. (None, t, db)" "\<lparr>name = [99], root = 3\<rparr>" "[1]" "[2]"]
  by (simp add: newTx_def)

text \<open>
  C4 as stated fails: when the write of the dirty node fails, \<open>Commit\<close> returns the error
  with the dirty-node map, the pages to delete and the allocated pages all still in place.
\<close>

theorem Commit_failure_clears_state_counterexample:
  "Commit failingWriteNode dal_deleteNode storingWriteFreelist [5] busy_tx busy_db
     = (Some IOError, busy_tx, busy_db)
   \<and> dirtyNodes busy_tx 5 \<noteq> None \<and> pagesToDelete busy_tx \<noteq> [] \<and> allocatedPageNums busy_tx \<noteq> []"
  by (simp add: Commit_def busy_tx_def busy_db_def failingWriteNode_def)

text \<open>
  C4, as the code has it: if \<open>Commit\<close> of a write transaction that holds the write lock
  fails part-way, in a node write or in the free-list write, the error is returned to the
  caller, and the transaction is returned as it was: its dirty-node map, its pages to
  delete and its allocated pages are not cleared, and the lock is still held.
\<close>

theorem Commit_failure_keeps_state:
  assumes "writeFlag t" and "writer (rwlock db)"
  shows "(\<forall>e d1. commitNodes dbWriteNode (dal db) (rangeNodes (dirtyNodes t) order) = (Some e, d1)
            \<longrightarrow> Commit dbWriteNode dbDeleteNode dbWriteFreelist order t db
                  = (Some e, t, db\<lparr>dal := d1\<rparr>))
       \<and> (\<forall>e d1 d3. commitNodes dbWriteNode (dal db) (rangeNodes (dirtyNodes t) order) = (None, d1)
              \<and> dbWriteFreelist (deletePages dbDeleteNode d1 (pagesToDelete t)) = (Some e, d3)
            \<longrightarrow> Commit dbWriteNode dbDeleteNode dbWriteFreelist order t db
                  = (Some e, t, db\<lparr>dal := d3\<rparr>))
       \<and> (\<forall>e t' db'. Commit dbWriteNode dbDeleteNode dbWriteFreelist order t db = (Some e, t', db')
            \<longrightarrow> t' = t \<and> rwlock db' = rwlock db)"
  using assms
  by (auto simp add: Commit_def Let_def Unlock_def split: prod.splits option.splits sum.splits)

theorem Commit_failure_keeps_state_witness:
  "Commit storingWriteNode dal_deleteNode failingWriteFreelist [5] busy_tx busy_db
     = (Some IOError, busy_tx,
        busy_db\<lparr>dal := \<lparr>pages = tree_pages(5 \<mapsto> \<lparr>pageNum = 5, items = [item1 99, item1 100], childNodes = []\<rparr>),
                        freelist = \<lparr>maxPage = 8, releasedPages = [4]\<rparr>\<rparr>\<rparr>)"
proof -
  have w: "writeFlag busy_tx" and l: "writer (rwlock busy_db)"
    by (simp_all add: busy_tx_def busy_db_def)
  have n: "commitNodes storingWriteNode (dal busy_db) (rangeNodes (dirtyNodes busy_tx) [5])
             = (None, (dal busy_db)\<lparr>pages := tree_pages(5 \<mapsto> \<lparr>pageNum = 5, items = [item1 99, item1 100], childNodes = []\<rparr>)\<rparr>)"
    by (simp add: busy_tx_def busy_db_def storingWriteNode_def dal_writeNode_def)
  show ?thesis
    using Commit_failure_keeps_state [OF w l, of storingWriteNode "[5]" dal_deleteNode
        failingWriteFreelist, THEN conjunct2, THEN conjunct1,
        THEN spec [where x = IOError],
        THEN spec [where x = "(dal busy_db)\<lparr>pages := tree_pages(5 \<mapsto> \<lparr>pageNum = 5, items = [item1 99, item1 100], childNodes = []\<rparr>)\<rparr>"],
        THEN spec [where x = "\<lparr>pages = tree_pages(5 \<mapsto> \<lparr>pageNum = 5, items = [item1 99, item1 100], childNodes = []\<rparr>),
                        freelist = \<lparr>maxPage = 8, releasedPages = [4]\<rparr>\<rparr>"]]
      n
    by (simp add: busy_tx_def busy_db_def failingWriteFreelist_def dal_deleteNode_def releasePage_def)
qed


lemma releasePages_released:
  "releasePages fr ps = fr\<lparr>releasedPages := releasedPages fr @ ps\<rparr>"
  by (induction ps arbitrary: fr) (simp_all add: releasePage_def)

lemma getNextPage_pop:
  "releasedPages fr = xs @ [p] \<Longrightarrow> getNextPage fr = (p, fr\<lparr>releasedPages := xs\<rparr>)"
  by (simp add: getNextPage_def)

lemma tx_newNodes_allocated:
  "tx_newNodes t db specs = (nodes, t', db') \<Longrightarrow>
   allocatedPageNums t' = allocatedPageNums t @ map pageNum nodes"
proof (induction specs arbitrary: t db nodes t' db')
  case Nil
  then show ?case by simp
next
  case (Cons sp specs)
  obtain its cs where sp: "sp = (its, cs)" by (cases sp)
  obtain node t1 db1 where one: "tx_newNode t db its cs = (node, t1, db1)"
    by (cases "tx_newNode t db its cs")
  obtain rest t2 db2 where more: "tx_newNodes t1 db1 specs = (rest, t2, db2)"
    by (cases "tx_newNodes t1 db1 specs")
  from one have a: "allocatedPageNums t1 = allocatedPageNums t @ [pageNum node]"
    by (auto simp add: tx_newNode_def Let_def split_beta)
  from Cons.prems sp one more have r: "nodes = node # rest" "t' = t2"
    by simp_all
  from Cons.IH [OF more] a r show ?case by simp
qed

lemma tx_newNodes_length: "length (fst (tx_newNodes t db specs)) = length specs"
proof (induction specs arbitrary: t db)
  case Nil
  then show ?case by simp
next
  case (Cons sp specs)
  then show ?case by (cases sp) (simp add: split_beta Let_def)
qed

lemma tx_newNodes_pops:
  "releasedPages (freelist (dal db)) = xs @ rev qs \<Longrightarrow> length specs = length qs \<Longrightarrow>
   map pageNum (fst (tx_newNodes t db specs)) = qs"
proof (induction specs arbitrary: t db qs)
  case Nil
  then show ?case by simp
next
  case (Cons sp specs)
  obtain its cs where sp: "sp = (its, cs)" by (cases sp)
  from Cons.prems(2) obtain q qs' where qs: "qs = q # qs'" and len: "length specs = length qs'"
    by (cases qs) simp_all
  from Cons.prems(1) qs have rel: "releasedPages (freelist (dal db)) = (xs @ rev qs') @ [q]"
    by simp
  note pop = getNextPage_pop [OF rel]
  obtain node t1 db1 where one: "tx_newNode t db its cs = (node, t1, db1)"
    by (cases "tx_newNode t db its cs")
  from one pop have n: "pageNum node = q"
    and d: "releasedPages (freelist (dal db1)) = xs @ rev qs'"
    by (auto simp add: tx_newNode_def Let_def NewEmptyNode_def)
  from Cons.IH [OF d len, of t1] one sp qs n show ?case
    by (simp add: split_beta)
qed

text \<open>
  C8: \<open>Rollback\<close> of a write transaction that holds the write lock releases every page
  number of its allocated-page list to the free-list, in order, clears the transaction and
  leaves the pages of the store as they were. If the transaction drew those page numbers
  by \<open>tx.newNode\<close>, the next write transaction, drawing as many, is issued the same page
  numbers, the last released first.
\<close>

theorem Rollback_reclaims_pages:
  assumes "writeFlag t" and "writer (rwlock db)" and "readers (rwlock db) = 0"
  shows "\<exists>t' db'.
      Rollback t db = (None, t', db')
    \<and> freelist (dal db') = releasePages (freelist (dal db)) (allocatedPageNums t)
    \<and> releasedPages (freelist (dal db')) = releasedPages (freelist (dal db)) @ allocatedPageNums t
    \<and> dirtyNodes t' = Map.empty \<and> pagesToDelete t' = [] \<and> allocatedPageNums t' = []
    \<and> pages (dal db') = pages (dal db)
    \<and> (\<forall>t0 db0 specs nodes specs'.
          allocatedPageNums t0 = [] \<and> tx_newNodes t0 db0 specs = (nodes, t, db)
          \<and> length specs' = length specs
          \<longrightarrow> (\<exists>t3 db3. WriteTx db' = Some (t3, db3)
                \<and> map pageNum (fst (tx_newNodes t3 db3 specs')) = rev (map pageNum nodes)
                \<and> set (map pageNum (fst (tx_newNodes t3 db3 specs'))) = set (map pageNum nodes)))"
proof -
  let ?fr = "(freelist (dal db))\<lparr>releasedPages := releasedPages (freelist (dal db)) @ allocatedPageNums t\<rparr>"
  let ?t' = "t\<lparr>dirtyNodes := Map.empty, pagesToDelete := [], allocatedPageNums := []\<rparr>"
  let ?db1 = "db\<lparr>dal := (dal db)\<lparr>freelist := ?fr\<rparr>\<rparr>"
  let ?db' = "?db1\<lparr>rwlock := (rwlock db)\<lparr>writer := False\<rparr>\<rparr>"
  have rb: "Rollback t db = (None, ?t', ?db')"
    using assms by (simp add: Rollback_def Let_def Unlock_def releasePages_released)
  have wt: "WriteTx ?db' = Some (newTx True, ?db'\<lparr>rwlock := (rwlock db)\<lparr>writer := True\<rparr>\<rparr>)"
    using assms by (simp add: WriteTx_def Lock_def)
  have again: "map pageNum (fst (tx_newNodes (newTx True) (?db'\<lparr>rwlock := (rwlock db)\<lparr>writer := True\<rparr>\<rparr>) specs'))
                 = rev (map pageNum nodes)"
    if "allocatedPageNums t0 = []" "tx_newNodes t0 db0 specs = (nodes, t, db)"
      "length specs' = length specs" for t0 db0 specs nodes specs'
  proof -
    from tx_newNodes_allocated [OF that(2)] that(1)
    have al: "allocatedPageNums t = map pageNum nodes" by simp
    have len: "length specs = length nodes"
      using tx_newNodes_length [of t0 db0 specs] that(2) by simp
    show ?thesis
      by (rule tx_newNodes_pops [where xs = "releasedPages (freelist (dal db))"])
        (simp_all add: al that(3) len)
  qed
  show ?thesis
    apply (rule exI [of _ ?t'], rule exI [of _ ?db'])
    apply (intro conjI)
           apply (rule rb)
          apply (simp add: releasePages_released)
         apply simp
        apply simp
       apply simp
      apply simp
     apply simp
    apply (intro allI impI)
    apply (rule exI [of _ "newTx True"], rule exI [of _ "?db'\<lparr>rwlock := (rwlock db)\<lparr>writer := True\<rparr>\<rparr>"])
    apply (elim conjE)
    apply (frule (2) again)
    apply (simp only: wt set_rev simp_thms)
    done
qed


theorem Rollback_reclaims_pages_witness:
  "\<exists>t' db'.
      Rollback (newTx True\<lparr>allocatedPageNums := [8, 9]\<rparr>)
        (busy_db\<lparr>dal := (dal busy_db)\<lparr>freelist := \<lparr>maxPage = 10, releasedPages = []\<rparr>\<rparr>\<rparr>)
        = (None, t', db')
    \<and> releasedPages (freelist (dal db')) = [8, 9]
    \<and> allocatedPageNums t' = []
    \<and> pages (dal db') = tree_pages
    \<and> (\<exists>t3 db3. WriteTx db' = Some (t3, db3)
          \<and> map pageNum (fst (tx_newNodes t3 db3 [([item1 1], []), ([item1 2], [])])) = [9, 8])"
proof -
  let ?t = "newTx True\<lparr>allocatedPageNums := [8, 9]\<rparr>"
  let ?db = "busy_db\<lparr>dal := (dal busy_db)\<lparr>freelist := \<lparr>maxPage = 10, releasedPages = []\<rparr>\<rparr>\<rparr>"
  let ?nodes = "[\<lparr>pageNum = 8, items = [], childNodes = []\<rparr>, \<lparr>pageNum = 9, items = [], childNodes = []\<rparr>]"
  have w: "writeFlag ?t" and l: "writer (rwlock ?db)" and r: "readers (rwlock ?db) = 0"
    by (simp_all add: newTx_def busy_db_def)
  have run: "tx_newNodes (newTx True) busy_db [([], []), ([], [])] = (?nodes, ?t, ?db)"
    by (simp add: tx_newNode_def newTx_def busy_db_def getNextPage_def NewEmptyNode_def)
  from Rollback_reclaims_pages [OF w l r]
  obtain t' db' where rb: "Rollback ?t ?db = (None, t', db')"
    and rel: "releasedPages (freelist (dal db')) = releasedPages (freelist (dal ?db)) @ allocatedPageNums ?t"
    and cl: "allocatedPageNums t' = []"
    and pg: "pages (dal db') = pages (dal ?db)"
    and nxt: "\<forall>t0 db0 specs nodes specs'.
          allocatedPageNums t0 = [] \<and> tx_newNodes t0 db0 specs = (nodes, ?t, ?db)
          \<and> length specs' = length specs
          \<longrightarrow> (\<exists>t3 db3. WriteTx db' = Some (t3, db3)
                \<and> map pageNum (fst (tx_newNodes t3 db3 specs')) = rev (map pageNum nodes)
                \<and> set (map pageNum (fst (tx_newNodes t3 db3 specs'))) = set (map pageNum nodes))"
    by blast
  have pre: "allocatedPageNums (newTx True) = []
      \<and> tx_newNodes (newTx True) busy_db [([], []), ([], [])] = (?nodes, ?t, ?db)
      \<and> length [([item1 1], [] :: pgnum list), ([item1 2], [])] = length [([] :: Item list, [] :: pgnum list), ([], [])]"
    using run by (simp add: newTx_def)
  from nxt [THEN spec [where x = "newTx True"], THEN spec [where x = busy_db],
      THEN spec [where x = "[([], []), ([], [])]"], THEN spec [where x = ?nodes],
      THEN spec [where x = "[([item1 1], []), ([item1 2], [])]"], THEN mp, OF pre]
  obtain t3 db3 where "WriteTx db' = Some (t3, db3)"
    and "map pageNum (fst (tx_newNodes t3 db3 [([item1 1], []), ([item1 2], [])]))
           = rev (map pageNum ?nodes)"
    by blast
  then have "\<exists>t3 db3. WriteTx db' = Some (t3, db3)
          \<and> map pageNum (fst (tx_newNodes t3 db3 [([item1 1], []), ([item1 2], [])])) = [9, 8]"
    by (intro exI [of _ t3] exI [of _ db3]) (simp del: tx_newNodes.simps)
  with rb rel cl pg show ?thesis
    by (simp add: newTx_def busy_db_def del: tx_newNodes.simps)
qed

subsection \<open>Little-endian bytes\<close>

lemma length_le_bytes [simp]: "length (le_bytes k w) = k"
  by (simp add: le_bytes_def)

lemma le_word_bytes_from:
  "le_word (map (\<lambda>j. ucast (drop_bit (8 * j) w) :: byte) [i..<i + k])
     = (take_bit (8 * k) (drop_bit (8 * i) w) :: 'a::len word)"
proof (induction k arbitrary: i)
  case 0
  then show ?case by simp
next
  case (Suc k)
  have "[i..<i + Suc k] = i # [Suc i..<Suc i + k]"
    by (simp add: upt_rec)
  then have "le_word (map (\<lambda>j. ucast (drop_bit (8 * j) w) :: byte) [i..<i + Suc k])
      = (ucast (ucast (drop_bit (8 * i) w) :: byte)
          OR push_bit 8 (take_bit (8 * k) (drop_bit (8 * Suc i) w)) :: 'a word)"
    using Suc.IH [of "Suc i"] by simp
  also have "\<dots> = take_bit (8 * Suc k) (drop_bit (8 * i) w)"
    by (rule bit_word_eqI) (auto simp add: bit_simps)
  finally show ?case .
qed

lemma le_word_le_bytes:
  "LENGTH('a::len) \<le> 8 * k \<Longrightarrow> le_word (le_bytes k w) = (w :: 'a word)"
  using le_word_bytes_from [of w 0 k]
  by (simp add: le_bytes_def take_bit_word_eq_self)

lemma le_word_le_bytes_64 [simp]: "le_word (le_bytes 8 w) = (w :: 64 word)"
  by (rule le_word_le_bytes) simp

lemma le_word_le_bytes_16 [simp]: "le_word (le_bytes 2 w) = (w :: 16 word)"
  by (rule le_word_le_bytes) simp

lemma uint_of_nat_16: "n < 65536 \<Longrightarrow> uint (of_nat n :: 16 word) = int n"
  by (simp add: uint_nat unat_of_nat)

lemma ucast_byte_of_nat: "n < 256 \<Longrightarrow> (ucast (of_nat n :: byte) :: 16 word) = of_nat n"
  by (simp add: word_unat_eq_iff unsigned_ucast_eq unat_of_nat take_bit_eq_mod)

subsection \<open>Writing into a buffer and reading it back\<close>

lemma length_writeAt [simp]:
  "p + length bs \<le> length buf \<Longrightarrow> length (writeAt buf p bs) = length buf"
  by (simp add: writeAt_def)

lemma nth_writeAt:
  "p + length bs \<le> length buf \<Longrightarrow> j < length buf \<Longrightarrow>
   writeAt buf p bs ! j = (if p \<le> j \<and> j < p + length bs then bs ! (j - p) else buf ! j)"
  by (auto simp add: writeAt_def nth_append)

lemma writeAt_append:
  "p + length xs + length ys \<le> length buf \<Longrightarrow>
   writeAt (writeAt buf p xs) (p + length xs) ys = writeAt buf p (xs @ ys)"
  by (simp add: writeAt_def add_ac)

lemma writeAt_prepend:
  "p + length xs + length ys \<le> length buf \<Longrightarrow>
   writeAt (writeAt buf (p + length xs) ys) p xs = writeAt buf p (xs @ ys)"
  by (simp add: writeAt_def add_ac)

lemma read_writeAt:
  "p + length bs \<le> length buf \<Longrightarrow> take (length bs) (drop p (writeAt buf p bs)) = bs"
  by (simp add: writeAt_def)


subsection \<open>One item of the serialization loop\<close>

lemma length_slotBytes [simp]: "length (slotBytes leaf c off) = slotWidth leaf"
  by (simp add: slotBytes_def slotWidth_def)

lemma length_cellBytes [simp]: "length (cellBytes it) = cellSize it"
  by (simp add: cellBytes_def cellSize_def)

lemma PutUint64_ok:
  "l + 8 \<le> length buf \<Longrightarrow> PutUint64 buf (int l) c = Inr (writeAt buf l (le_bytes 8 c))"
  by (simp add: PutUint64_def sliceFrom_def)

lemma PutUint16_ok:
  "l + 2 \<le> length buf \<Longrightarrow> PutUint16 buf (int l) v = Inr (writeAt buf l (le_bytes 2 v))"
  by (simp add: PutUint16_def sliceFrom_def)

lemma copyAt_ok:
  "p + length src \<le> length buf \<Longrightarrow> copyAt buf (int p) src = Inr (writeAt buf p src)"
  by (simp add: copyAt_def sliceFrom_def)

lemma setAt_ok:
  "p < length buf \<Longrightarrow> setAt buf (int p) b = Inr (writeAt buf p [b])"
  by (simp add: setAt_def writeAt_def upd_conv_take_nth_drop)

lemma cell_writes:
  assumes "q + (length k + length v + 2) \<le> length X"
  shows "writeAt (writeAt (writeAt (writeAt X (q + length k + 2) v) (q + length k + 1) [vb])
           (q + 1) k) q [kb]
         = writeAt X q ([kb] @ k @ [vb] @ v)"
proof -
  have 1: "writeAt (writeAt X (q + length k + 2) v) (q + length k + 1) [vb]
             = writeAt X (q + length k + 1) ([vb] @ v)"
    using writeAt_prepend [of "q + length k + 1" "[vb]" v X] assms
    by (simp add: add_ac)
  have 2: "writeAt (writeAt X (q + length k + 1) ([vb] @ v)) (q + 1) k
             = writeAt X (q + 1) (k @ [vb] @ v)"
    using writeAt_prepend [of "q + 1" k "[vb] @ v" X] assms
    by (simp add: add_ac)
  have 3: "writeAt (writeAt X (q + 1) (k @ [vb] @ v)) q [kb]
             = writeAt X q ([kb] @ k @ [vb] @ v)"
    using writeAt_prepend [of q "[kb]" "k @ [vb] @ v" X] assms
    by (simp add: add_ac)
  show ?thesis
    by (simp only: 1 2 3)
qed

lemma slot_writes:
  assumes "l + 10 \<le> length buf"
  shows "writeAt (writeAt buf l (le_bytes 8 c)) (l + 8) (le_bytes 2 w)
         = writeAt buf l (le_bytes 8 c @ le_bytes 2 w)"
  using writeAt_append [of l "le_bytes 8 c" "le_bytes 2 w" buf] assms by simp

lemma serializeItems_step:
  assumes fit: "l + slotWidth leaf + cellSize it \<le> r"
    and r: "r \<le> length buf"
    and child: "\<not> leaf \<Longrightarrow> at cs (int i) = Inr c"
  shows "serializeItems cs leaf (int i) (it # rest) (int l, int r, buf) =
         serializeItems cs leaf (int (Suc i)) rest
           (int (l + slotWidth leaf), int (r - cellSize it),
            writeAt (writeAt buf l (slotBytes leaf c (r - cellSize it))) (r - cellSize it)
              (cellBytes it))"
proof -
  define q where "q = r - cellSize it"
  have rq: "r = q + length (key it) + length (val it) + 2"
    using fit by (simp add: q_def cellSize_def)
  have pos: "int r - int (length (key it)) - int (length (val it)) - 2 = int q"
    "int r - int (length (val it)) = int (q + length (key it) + 2)"
    "int (q + length (key it) + 2) - 1 = int (q + length (key it) + 1)"
    "int (q + length (key it) + 1) - int (length (key it)) = int (q + 1)"
    "int (q + 1) - 1 = int q"
    by (simp_all add: rq)
  have lq: "l + slotWidth leaf \<le> q"
    using fit by (simp add: q_def)
  have qlen: "q + (length (key it) + length (val it) + 2) \<le> length buf"
    using r rq by simp
  have w: "(word_of_int (int q) :: 16 word) = of_nat q"
    "(word_of_int (int (length (key it))) :: byte) = of_nat (length (key it))"
    "(word_of_int (int (length (val it))) :: byte) = of_nat (length (val it))"
    by simp_all
  have idx: "int i + 1 = int (Suc i)" by simp
  define X where "X = writeAt buf l (slotBytes leaf c q)"
  have lenX: "length X = length buf"
    using lq qlen by (simp add: X_def)
  define B3 where "B3 = writeAt X (q + length (key it) + 2) (val it)"
  define B4 where "B4 = writeAt B3 (q + length (key it) + 1) [of_nat (length (val it))]"
  define B5 where "B5 = writeAt B4 (q + 1) (key it)"
  define B6 where "B6 = writeAt B5 q [of_nat (length (key it))]"
  have len3: "length B3 = length buf" using qlen lenX by (simp add: B3_def)
  have len4: "length B4 = length buf" using qlen len3 by (simp add: B4_def)
  have len5: "length B5 = length buf" using qlen len4 by (simp add: B5_def)
  have c3: "copyAt X (int (q + length (key it) + 2)) (val it) = Inr B3"
    unfolding B3_def using qlen lenX by (intro copyAt_ok) simp
  have c4: "setAt B3 (int (q + length (key it) + 1)) (of_nat (length (val it))) = Inr B4"
    unfolding B4_def using qlen len3 by (intro setAt_ok) simp
  have c5: "copyAt B4 (int (q + 1)) (key it) = Inr B5"
    unfolding B5_def using qlen len4 by (intro copyAt_ok) simp
  have c6: "setAt B5 (int q) (of_nat (length (key it))) = Inr B6"
    unfolding B6_def using qlen len5 by (intro setAt_ok) simp
  have fuse: "B6 = writeAt X q (cellBytes it)"
    unfolding B6_def B5_def B4_def B3_def cellBytes_def
    using qlen lenX by (intro cell_writes) simp
  have tail: "bindE (PutUint16 Y (int p) (word_of_int
                 (int r - int (length (key it)) - int (length (val it)) - 2))) (\<lambda>buf2.
          bindE (copyAt buf2 (int r - int (length (val it))) (val it)) (\<lambda>buf3.
          bindE (setAt buf3 (int r - int (length (val it)) - 1)
                   (word_of_int (int (length (val it))))) (\<lambda>buf4.
          bindE (copyAt buf4 (int r - int (length (val it)) - 1 - int (length (key it)))
                   (key it)) (\<lambda>buf5.
          bindE (setAt buf5 (int r - int (length (val it)) - 1 - int (length (key it)) - 1)
                   (word_of_int (int (length (key it))))) (\<lambda>buf6.
            serializeItems cs leaf (int i + 1) rest
              (int p + 2, int r - int (length (val it)) - 1 - int (length (key it)) - 1, buf6))))))
        = serializeItems cs leaf (int (Suc i)) rest (int (p + 2), int q, B6)"
    if Y: "writeAt Y p (le_bytes 2 (of_nat q :: 16 word)) = X" and p: "p + 2 \<le> length Y" for Y p
  proof -
    have c2: "PutUint16 Y (int p) (of_nat q) = Inr X"
      using PutUint16_ok [OF p, of "of_nat q"] Y by simp
    have p2: "int p + 2 = int (p + 2)" by simp
    show ?thesis
      by (simp only: pos w idx p2 c2 c3 c4 c5 c6 bindE_Inr)
  qed
  show ?thesis
  proof (cases leaf)
    case True
    have Y: "writeAt buf l (le_bytes 2 (of_nat q :: 16 word)) = X"
      by (simp add: X_def slotBytes_def True)
    have p: "l + 2 \<le> length buf"
      using lq qlen True by (simp add: slotWidth_def)
    have sw: "l + slotWidth leaf = l + 2" by (simp add: slotWidth_def True)
    have nl: "(\<not> leaf) = False" using True by simp
    show ?thesis
      unfolding serializeItems.simps Let_def
      apply (simp only: nl if_False bindE_Inr prod.case)
      apply (simp only: tail [OF Y p] fuse X_def q_def sw)
      done
  next
    case False
    have p8: "l + 8 \<le> length buf"
      using lq qlen False by (simp add: slotWidth_def)
    have c1: "PutUint64 buf (int l) c = Inr (writeAt buf l (le_bytes 8 c))"
      by (rule PutUint64_ok [OF p8])
    have Y: "writeAt (writeAt buf l (le_bytes 8 c)) (l + 8) (le_bytes 2 (of_nat q :: 16 word)) = X"
      unfolding X_def slotBytes_def using lq qlen False
      by (simp add: slot_writes slotWidth_def)
    have p: "(l + 8) + 2 \<le> length (writeAt buf l (le_bytes 8 c))"
      using lq qlen False by (simp add: slotWidth_def)
    have sw: "l + slotWidth leaf = l + 8 + 2" by (simp add: slotWidth_def False)
    have l8: "int l + pageNumSize = int (l + 8)" by (simp add: pageNumSize_def)
    have nl: "(\<not> leaf) = True" using False by simp
    show ?thesis
      unfolding serializeItems.simps Let_def
      apply (simp only: nl if_True child [OF False] c1 l8 bindE_Inr prod.case)
      apply (simp only: tail [OF Y p] fuse X_def q_def sw)
      done
  qed
qed

subsection \<open>One item of the deserialization loop\<close>

lemma read_append:
  assumes "take (length (xs @ ys)) (drop p B) = xs @ ys"
  shows "take (length xs) (drop p B) = xs"
    and "take (length ys) (drop (p + length xs) B) = ys"
proof -
  have "take (length xs) (take (length (xs @ ys)) (drop p B)) = take (length xs) (xs @ ys)"
    by (simp only: assms)
  then show "take (length xs) (drop p B) = xs"
    by (simp add: min_def)
  have "drop (length xs) (take (length (xs @ ys)) (drop p B)) = drop (length xs) (xs @ ys)"
    by (simp only: assms)
  then show "take (length ys) (drop (p + length xs) B) = ys"
    by (simp add: drop_take add.commute)
qed

lemma read_byte:
  assumes "take (length [b]) (drop p B) = [b]"
  shows "p < length B" and "B ! p = b"
proof -
  from assms have ne: "drop p B \<noteq> []" by auto
  then show lt: "p < length B" by simp
  from assms have "hd (drop p B) = b"
    by (cases "drop p B") simp_all
  with lt show "B ! p = b"
    by (simp add: hd_drop_conv_nth)
qed

lemma at_nat: "p < length B \<Longrightarrow> at B (int p) = Inr (B ! p)"
  by (simp add: at_def)

lemma Uint16_read:
  assumes "take 2 (drop p B) = le_bytes 2 w" and "p + 2 \<le> length B"
  shows "Uint16 B (int p) = Inr w"
  using assms by (simp add: Uint16_def sliceFrom_def)

lemma Uint64_read:
  assumes "take 8 (drop p B) = le_bytes 8 w" and "p + 8 \<le> length B"
  shows "Uint64 B (int p) = Inr w"
  using assms by (simp add: Uint64_def sliceFrom_def)

lemma slice_read:
  assumes "take (length bs) (drop p B) = bs" and "p + length bs \<le> length B"
  shows "slice B (int p) (int (p + length bs)) = Inr bs"
  using assms by (simp add: slice_def)

lemma deserializeItems_step:
  assumes slot: "take (slotWidth leaf) (drop l B) = slotBytes leaf c q"
    and cell: "take (cellSize it) (drop q B) = cellBytes it"
    and lb: "l + slotWidth leaf \<le> length B"
    and qb: "q + cellSize it \<le> length B" "q + cellSize it < 65536"
    and kv: "length (key it) \<le> 255" "length (val it) \<le> 255"
    and flag: "(flag = 0) = (\<not> leaf)"
  shows "deserializeItems B flag (Suc k) (int l, n) =
         deserializeItems B flag k
           (int (l + slotWidth leaf),
            (if leaf then n else n\<lparr>childNodes := childNodes n @ [c]\<rparr>)\<lparr>items := items n @ [it]\<rparr>)"
proof -
  define kl where "kl = length (key it)"
  define vl where "vl = length (val it)"
  have cs: "cellSize it = kl + vl + 2" by (simp add: cellSize_def kl_def vl_def)
  have cell': "take (length ([of_nat kl :: byte] @ (key it @ [of_nat vl] @ val it))) (drop q B)
                 = [of_nat kl] @ (key it @ [of_nat vl] @ val it)"
    using cell by (simp add: cellBytes_def cellSize_def kl_def vl_def)
  note r1 = read_append [OF cell']
  have kb: "B ! q = of_nat kl" and qlt: "q < length B"
    using read_byte [of "of_nat kl" q B] r1(1) by simp_all
  have rest1: "take (length (key it @ ([of_nat vl :: byte] @ val it))) (drop (q + 1) B)
                 = key it @ ([of_nat vl] @ val it)"
    using r1(2) by simp
  note r2 = read_append [OF rest1]
  have key: "take (length (key it)) (drop (q + 1) B) = key it"
    using r2(1) .
  have rest2: "take (length ([of_nat vl :: byte] @ val it)) (drop (q + 1 + kl) B)
                 = [of_nat vl] @ val it"
    using r2(2) by (simp add: kl_def)
  note r3 = read_append [OF rest2]
  have vb: "B ! (q + 1 + kl) = of_nat vl"
    using read_byte [of "of_nat vl" "q + 1 + kl" B] r3(1) by simp
  have val: "take (length (val it)) (drop (q + 1 + kl + 1) B) = val it"
    using r3(2) by simp
  have w1: "(of_nat q + 1 :: 16 word) = of_nat (q + 1)" by simp
  have w2: "(of_nat (q + 1) + ucast (of_nat kl :: byte) :: 16 word) = of_nat (q + 1 + kl)"
    using kv by (simp add: ucast_byte_of_nat kl_def)
  have w3: "(of_nat (q + 1 + kl) + 1 :: 16 word) = of_nat (q + 1 + kl + 1)" by simp
  have w4: "(of_nat (q + 1 + kl + 1) + ucast (of_nat vl :: byte) :: 16 word)
              = of_nat (q + 1 + kl + 1 + vl)"
    using kv by (simp add: ucast_byte_of_nat vl_def)
  have u: "uint (of_nat q :: 16 word) = int q"
    "uint (of_nat (q + 1) :: 16 word) = int (q + 1)"
    "uint (of_nat (q + 1 + kl) :: 16 word) = int (q + 1 + kl)"
    "uint (of_nat (q + 1 + kl + 1) :: 16 word) = int (q + 1 + kl + 1)"
    "uint (of_nat (q + 1 + kl + 1 + vl) :: 16 word) = int (q + 1 + kl + 1 + vl)"
  proof -
    have bnd: "q + 1 + kl + 1 + vl < 65536" using qb cs by simp
    show "uint (of_nat q :: 16 word) = int q"
      by (rule uint_of_nat_16) (use bnd in linarith)
    show "uint (of_nat (q + 1) :: 16 word) = int (q + 1)"
      by (rule uint_of_nat_16) (use bnd in linarith)
    show "uint (of_nat (q + 1 + kl) :: 16 word) = int (q + 1 + kl)"
      by (rule uint_of_nat_16) (use bnd in linarith)
    show "uint (of_nat (q + 1 + kl + 1) :: 16 word) = int (q + 1 + kl + 1)"
      by (rule uint_of_nat_16) (use bnd in linarith)
    show "uint (of_nat (q + 1 + kl + 1 + vl) :: 16 word) = int (q + 1 + kl + 1 + vl)"
      by (rule uint_of_nat_16) (use bnd in linarith)
  qed
  have a1: "at B (int q) = Inr (of_nat kl)"
    by (simp only: at_nat [OF qlt] kb)
  have s1: "slice B (int (q + 1)) (int (q + 1 + kl)) = Inr (key it)"
    using slice_read [OF key] qb cs by (simp add: kl_def)
  have lt2: "q + 1 + kl < length B" using qb cs by simp
  have a2: "at B (int (q + 1 + kl)) = Inr (of_nat vl)"
    by (simp only: at_nat [OF lt2] vb)
  have s2: "slice B (int (q + 1 + kl + 1)) (int (q + 1 + kl + 1 + vl)) = Inr (val it)"
    using slice_read [OF val] qb cs by (simp add: vl_def)
  have item: "newItem (key it) (val it) = it"
    by (simp add: newItem_def)
  have tail: "bindE (Uint16 B (int p)) (\<lambda>offset.
          bindE (at B (uint offset)) (\<lambda>klenByte.
          bindE (slice B (uint (offset + 1)) (uint (offset + 1 + ucast klenByte))) (\<lambda>k'.
          bindE (at B (uint (offset + 1 + ucast klenByte))) (\<lambda>vlenByte.
          bindE (slice B (uint (offset + 1 + ucast klenByte + 1))
                   (uint (offset + 1 + ucast klenByte + 1 + ucast vlenByte))) (\<lambda>v'.
            deserializeItems B flag k (int p + 2, m\<lparr>items := base @ [newItem k' v']\<rparr>))))))
        = deserializeItems B flag k (int (p + 2), m\<lparr>items := base @ [it]\<rparr>)"
    if off: "take 2 (drop p B) = le_bytes 2 (of_nat q :: 16 word)" and p: "p + 2 \<le> length B"
    for p m base
  proof -
    have p2: "int p + 2 = int (p + 2)" by simp
    show ?thesis
      by (simp only: Uint16_read [OF off p] bindE_Inr u a1 w1 w2 w3 w4 s1 a2 s2 item p2)
  qed
  show ?thesis
  proof (cases leaf)
    case True
    have f: "(flag = 0) = False" using flag True by simp
    have off: "take 2 (drop l B) = le_bytes 2 (of_nat q :: 16 word)"
      using slot True by (simp add: slotWidth_def slotBytes_def)
    have p: "l + 2 \<le> length B" using lb True by (simp add: slotWidth_def)
    have sw: "l + slotWidth leaf = l + 2" using True by (simp add: slotWidth_def)
    have lf: "leaf = True" using True by simp
    show ?thesis
      unfolding deserializeItems.simps Let_def
      apply (simp only: f if_False bindE_Inr prod.case)
      apply (simp only: tail [OF off p] sw)
      apply (simp only: lf if_True)
      done
  next
    case False
    have f: "(flag = 0) = True" using flag False by simp
    have slot': "take (length (le_bytes 8 c @ le_bytes 2 (of_nat q :: 16 word))) (drop l B)
                   = le_bytes 8 c @ le_bytes 2 (of_nat q :: 16 word)"
      using slot False by (simp add: slotWidth_def slotBytes_def)
    note r = read_append [OF slot']
    have c8: "take 8 (drop l B) = le_bytes 8 c" using r(1) by simp
    have off: "take 2 (drop (l + 8) B) = le_bytes 2 (of_nat q :: 16 word)" using r(2) by simp
    have p8: "l + 8 \<le> length B" and p: "(l + 8) + 2 \<le> length B"
      using lb False by (simp_all add: slotWidth_def)
    have sw: "l + slotWidth leaf = l + 8 + 2" using False by (simp add: slotWidth_def)
    have l8: "int l + pageNumSize = int (l + 8)" by (simp add: pageNumSize_def)
    have lf: "leaf = False" using False by simp
    have its: "items (n\<lparr>childNodes := childNodes n @ [c]\<rparr>) = items n" by simp
    show ?thesis
      unfolding deserializeItems.simps Let_def
      apply (simp only: f if_True Uint64_read [OF c8 p8] l8 bindE_Inr prod.case)
      apply (simp only: tail [OF off p] sw its)
      apply (simp only: lf if_False)
      done
  qed
qed


subsection \<open>The two loops over all items\<close>

lemma take_drop_eqI:
  assumes "p + length bs \<le> length B" and "\<And>j. j < length bs \<Longrightarrow> B ! (p + j) = bs ! j"
  shows "take (length bs) (drop p B) = bs"
  using assms by (intro nth_equalityI) simp_all

lemma cellsSize_Cons [simp]: "cellsSize (it # its) = cellSize it + cellsSize its"
  by (simp add: cellsSize_def)

lemma cellsSize_Nil [simp]: "cellsSize [] = 0"
  by (simp add: cellsSize_def)

lemma written_slot:
  assumes "l + length sb \<le> q" "q + length cb \<le> length buf" "j < length sb"
  shows "writeAt (writeAt buf l sb) q cb ! (l + j) = sb ! j"
  using assms by (simp add: nth_writeAt)

lemma written_cell:
  assumes "l + length sb \<le> q" "q + length cb \<le> length buf" "j < length cb"
  shows "writeAt (writeAt buf l sb) q cb ! (q + j) = cb ! j"
  using assms by (simp add: nth_writeAt)

lemma written_frame:
  assumes "l + length sb \<le> q" "q + length cb \<le> length buf" "j < length buf"
    and "j < l \<or> (l + length sb \<le> j \<and> j < q) \<or> q + length cb \<le> j"
  shows "writeAt (writeAt buf l sb) q cb ! j = buf ! j"
  using assms by (auto simp add: nth_writeAt)

lemma serializeItems_ok:
  assumes "l + slotWidth leaf * length its + cellsSize its \<le> r"
    and "r \<le> length buf"
    and "\<not> leaf \<Longrightarrow> i + length its \<le> length cs"
  shows "\<exists>buf'. serializeItems cs leaf (int i) its (int l, int r, buf)
                 = Inr (int (l + slotWidth leaf * length its), int (r - cellsSize its), buf')
       \<and> length buf' = length buf
       \<and> (\<forall>j<length buf. j < l \<or> (l + slotWidth leaf * length its \<le> j \<and> j < r - cellsSize its)
              \<or> r \<le> j \<longrightarrow> buf' ! j = buf ! j)"
  using assms
proof (induction its arbitrary: l r buf i)
  case Nil
  then show ?case by simp
next
  case (Cons it its)
  define q where "q = r - cellSize it"
  define c where "c = cs ! i"
  define buf1 where "buf1 = writeAt (writeAt buf l (slotBytes leaf c q)) q (cellBytes it)"
  define l1 where "l1 = l + slotWidth leaf"
  have fit1: "l + slotWidth leaf + cellSize it \<le> r"
    using Cons.prems(1) by simp
  have child: "at cs (int i) = Inr c" if "\<not> leaf"
    using Cons.prems(3) [OF that] by (simp add: at_def c_def)
  have step: "serializeItems cs leaf (int i) (it # its) (int l, int r, buf)
                = serializeItems cs leaf (int (Suc i)) its (int l1, int q, buf1)"
    unfolding l1_def q_def buf1_def
    by (rule serializeItems_step [OF fit1 Cons.prems(2) child])
  have lq: "l + length (slotBytes leaf c q) \<le> q" and ql: "q + length (cellBytes it) \<le> length buf"
    using fit1 Cons.prems(2) by (simp_all add: q_def)
  have len1: "length buf1 = length buf"
    using lq ql by (simp add: buf1_def)
  have fit': "l1 + slotWidth leaf * length its + cellsSize its \<le> q"
    using Cons.prems(1) by (simp add: l1_def q_def)
  have r': "q \<le> length buf1"
    using ql len1 by simp
  have ch': "\<not> leaf \<Longrightarrow> Suc i + length its \<le> length cs"
    using Cons.prems(3) by simp
  from Cons.IH [OF fit' r' ch']
  obtain buf' where ser: "serializeItems cs leaf (int (Suc i)) its (int l1, int q, buf1)
                 = Inr (int (l1 + slotWidth leaf * length its), int (q - cellsSize its), buf')"
    and len': "length buf' = length buf1"
    and fr: "\<forall>j<length buf1. j < l1 \<or> (l1 + slotWidth leaf * length its \<le> j \<and> j < q - cellsSize its)
              \<or> q \<le> j \<longrightarrow> buf' ! j = buf1 ! j"
    by blast
  have e1: "l1 + slotWidth leaf * length its = l + slotWidth leaf * length (it # its)"
    by (simp add: l1_def)
  have e2: "q - cellsSize its = r - cellsSize (it # its)"
    by (simp add: q_def)
  have frame: "buf' ! j = buf ! j"
    if "j < length buf"
      "j < l \<or> (l + slotWidth leaf * length (it # its) \<le> j \<and> j < r - cellsSize (it # its)) \<or> r \<le> j"
    for j
  proof -
    have "buf' ! j = buf1 ! j"
      using fr that len1 by (auto simp add: l1_def q_def)
    also have "buf1 ! j = buf ! j"
      unfolding buf1_def
    proof (rule written_frame [OF lq ql that(1)])
      show "j < l \<or> (l + length (slotBytes leaf c q) \<le> j \<and> j < q) \<or> q + length (cellBytes it) \<le> j"
        using that(2) fit1 Cons.prems(1) by (auto simp add: q_def)
    qed
    finally show ?thesis .
  qed
  show ?case
    apply (rule exI [of _ buf'])
    apply (simp only: step ser e1 e2 len' len1)
    using frame apply blast
    done
qed


lemma deserializeItems_ok:
  assumes "l + slotWidth leaf * length its + cellsSize its \<le> r"
    and "r \<le> length buf" and "r < 65536"
    and "\<not> leaf \<Longrightarrow> i + length its \<le> length cs"
    and "\<forall>it\<in>set its. length (key it) \<le> 255 \<and> length (val it) \<le> 255"
    and "(flag = 0) = (\<not> leaf)"
    and "serializeItems cs leaf (int i) its (int l, int r, buf) = Inr (l', r', buf')"
    and "length B = length buf"
    and "\<And>j. j < length buf \<Longrightarrow>
           (l \<le> j \<and> j < l + slotWidth leaf * length its) \<or> (r - cellsSize its \<le> j \<and> j < r) \<Longrightarrow>
           B ! j = buf' ! j"
  shows "deserializeItems B flag (length its) (int l, n) =
           Inr (int (l + slotWidth leaf * length its),
                n\<lparr>childNodes := childNodes n @ (if leaf then [] else take (length its) (drop i cs)),
                  items := items n @ its\<rparr>)"
  using assms
proof (induction its arbitrary: l r buf i n)
  case Nil
  then show ?case by simp
next
  case (Cons it its)
  define q where "q = r - cellSize it"
  define c where "c = cs ! i"
  define buf1 where "buf1 = writeAt (writeAt buf l (slotBytes leaf c q)) q (cellBytes it)"
  define l1 where "l1 = l + slotWidth leaf"
  define n1 where "n1 = (if leaf then n else n\<lparr>childNodes := childNodes n @ [c]\<rparr>)\<lparr>items := items n @ [it]\<rparr>"
  note fit = Cons.prems(1) and rlen = Cons.prems(2) and rmax = Cons.prems(3)
    and ch = Cons.prems(4) and kv = Cons.prems(5) and flag = Cons.prems(6)
    and ser = Cons.prems(7) and lenB = Cons.prems(8) and agree = Cons.prems(9)
  have fit1: "l + slotWidth leaf + cellSize it \<le> r"
    using fit by simp
  have child: "at cs (int i) = Inr c" if "\<not> leaf"
    using ch [OF that] by (simp add: at_def c_def)
  have step: "serializeItems cs leaf (int i) (it # its) (int l, int r, buf)
                = serializeItems cs leaf (int (Suc i)) its (int l1, int q, buf1)"
    unfolding l1_def q_def buf1_def
    by (rule serializeItems_step [OF fit1 rlen child])
  have lq: "l + length (slotBytes leaf c q) \<le> q" and ql: "q + length (cellBytes it) \<le> length buf"
    using fit1 rlen by (simp_all add: q_def)
  have len1: "length buf1 = length buf"
    using lq ql by (simp add: buf1_def)
  have fit': "l1 + slotWidth leaf * length its + cellsSize its \<le> q"
    using fit by (simp add: l1_def q_def)
  have r': "q \<le> length buf1" "q < 65536"
    using ql len1 rmax by (simp_all add: q_def)
  have ch': "\<not> leaf \<Longrightarrow> Suc i + length its \<le> length cs"
    using ch by simp
  have kv': "\<forall>it\<in>set its. length (key it) \<le> 255 \<and> length (val it) \<le> 255"
    using kv by simp
  have ser': "serializeItems cs leaf (int (Suc i)) its (int l1, int q, buf1) = Inr (l', r', buf')"
    using ser step by simp
  from serializeItems_ok [OF fit' r'(1) ch'] ser'
  have fr: "\<And>j. j < length buf1 \<Longrightarrow>
              j < l1 \<or> (l1 + slotWidth leaf * length its \<le> j \<and> j < q - cellsSize its) \<or> q \<le> j
              \<Longrightarrow> buf' ! j = buf1 ! j"
    by auto
  have slot: "take (slotWidth leaf) (drop l B) = slotBytes leaf c q"
  proof -
    have "take (length (slotBytes leaf c q)) (drop l B) = slotBytes leaf c q"
    proof (rule take_drop_eqI)
      show "l + length (slotBytes leaf c q) \<le> length B"
        using lq ql lenB by simp
    next
      fix j
      assume j: "j < length (slotBytes leaf c q)"
      then have jl: "l + j < length buf" using lq ql by simp
      have "B ! (l + j) = buf' ! (l + j)"
        using j by (intro agree [OF jl]) simp
      also have "\<dots> = buf1 ! (l + j)"
        using j jl len1 by (intro fr) (simp_all add: l1_def)
      also have "\<dots> = slotBytes leaf c q ! j"
        unfolding buf1_def by (rule written_slot [OF lq ql j])
      finally show "B ! (l + j) = slotBytes leaf c q ! j" .
    qed
    then show ?thesis by simp
  qed
  have cell: "take (cellSize it) (drop q B) = cellBytes it"
  proof -
    have "take (length (cellBytes it)) (drop q B) = cellBytes it"
    proof (rule take_drop_eqI)
      show "q + length (cellBytes it) \<le> length B"
        using ql lenB by simp
    next
      fix j
      assume j: "j < length (cellBytes it)"
      then have jl: "q + j < length buf" using ql by simp
      have reg: "r - cellsSize (it # its) \<le> q + j \<and> q + j < r"
        using j fit1 unfolding q_def cellsSize_Cons length_cellBytes by arith
      have "B ! (q + j) = buf' ! (q + j)"
        by (rule agree [OF jl]) (rule disjI2, rule reg)
      also have "\<dots> = buf1 ! (q + j)"
        using j jl len1 by (intro fr) simp_all
      also have "\<dots> = cellBytes it ! j"
        unfolding buf1_def by (rule written_cell [OF lq ql j])
      finally show "B ! (q + j) = cellBytes it ! j" .
    qed
    then show ?thesis by simp
  qed
  have lb: "l + slotWidth leaf \<le> length B"
    using lq ql lenB by simp
  have qb: "q + cellSize it \<le> length B" "q + cellSize it < 65536"
    using ql lenB rmax fit1 by (simp_all add: q_def)
  have kvi: "length (key it) \<le> 255" "length (val it) \<le> 255"
    using kv by simp_all
  have dstep: "deserializeItems B flag (Suc (length its)) (int l, n)
                 = deserializeItems B flag (length its) (int l1, n1)"
    unfolding l1_def n1_def
    by (rule deserializeItems_step [OF slot cell lb qb kvi flag])
  have agree': "B ! j = buf' ! j"
    if "j < length buf1"
      "(l1 \<le> j \<and> j < l1 + slotWidth leaf * length its) \<or> (q - cellsSize its \<le> j \<and> j < q)"
    for j
  proof (rule agree)
    show "j < length buf" using that(1) len1 by simp
    show "(l \<le> j \<and> j < l + slotWidth leaf * length (it # its))
            \<or> (r - cellsSize (it # its) \<le> j \<and> j < r)"
      using that(2) by (auto simp add: l1_def q_def)
  qed
  have lenB1: "length B = length buf1" using lenB len1 by simp
  have rest: "deserializeItems B flag (length its) (int l1, n1) =
           Inr (int (l1 + slotWidth leaf * length its),
                n1\<lparr>childNodes := childNodes n1 @ (if leaf then [] else take (length its) (drop (Suc i) cs)),
                   items := items n1 @ its\<rparr>)"
    by (rule Cons.IH [OF fit' r' ch' kv' flag ser' lenB1 agree'])
  have e1: "l1 + slotWidth leaf * length its = l + slotWidth leaf * length (it # its)"
    by (simp add: l1_def)
  have e2: "n1\<lparr>childNodes := childNodes n1 @ (if leaf then [] else take (length its) (drop (Suc i) cs)),
               items := items n1 @ its\<rparr>
            = n\<lparr>childNodes := childNodes n @ (if leaf then [] else take (length (it # its)) (drop i cs)),
                items := items n @ it # its\<rparr>"
  proof (cases leaf)
    case True
    then show ?thesis by (simp add: n1_def)
  next
    case False
    from ch [OF False] have "i < length cs" by simp
    then have "take (Suc (length its)) (drop i cs) = cs ! i # take (length its) (drop (Suc i) cs)"
      by (simp add: Cons_nth_drop_Suc [symmetric])
    with False show ?thesis by (simp add: n1_def c_def)
  qed
  have "deserializeItems B flag (length (it # its)) (int l, n)
          = deserializeItems B flag (Suc (length its)) (int l, n)"
    by simp
  also note dstep
  also note rest
  finally show ?case
    by (simp only: e1 e2)
qed

subsection \<open>The whole node\<close>

lemma serializedSize_sum:
  "(\<Sum>it\<leftarrow>its. (if leaf then 0 else 8) + 2
       + (1 + int (length (key it)) + 1 + int (length (val it))))
     = int (slotWidth leaf * length its + cellsSize its)"
  by (induction its) (simp_all add: slotWidth_def cellSize_def)

lemma serializedSize_eq:
  "serializedSize n = int (3 + slotWidth (isLeaf n) * length (items n) + cellsSize (items n)
                           + (if isLeaf n then 0 else 8))"
  unfolding serializedSize_def serializedSize_sum by simp

lemma cellsSize_ge: "2 * length its \<le> cellsSize its"
  by (induction its) (simp_all add: cellSize_def)


text \<open>
  C3, as the code has it: for a node whose keys and values are at most 255 bytes long and
  whose child page numbers are none or one more than its items, on a page of at most 65536
  bytes that the serialized node does not fill (its bytes are fewer than the page's: the
  last byte of a page is never used), \<open>serialize\<close> succeeds and \<open>deserialize\<close> of its result
  into an empty node gives the items and the child page numbers of the node.
\<close>

theorem serialize_deserialize_roundtrip:
  assumes kv: "\<forall>it\<in>set (items n). length (key it) \<le> 255 \<and> length (val it) \<le> 255"
    and ch: "childNodes n = [] \<or> length (childNodes n) = length (items n) + 1"
    and size: "serializedSize n < int (length buf)"
    and page: "length buf \<le> 65536"
  shows "\<exists>buf' n'. serialize n buf = Inr buf' \<and> length buf' = length buf
           \<and> deserialize NewEmptyNode buf' = Inr n'
           \<and> items n' = items n \<and> childNodes n' = childNodes n"
proof -
  define leaf where "leaf = isLeaf n"
  define N where "N = length (items n)"
  define L where "L = 3 + slotWidth leaf * N"
  define R0 where "R0 = length buf - 1"
  define R where "R = R0 - cellsSize (items n)"
  define fb :: byte where "fb = (if leaf then 1 else 0)"
  define b1 where "b1 = writeAt buf 0 [fb]"
  define b2 where "b2 = writeAt b1 1 (le_bytes 2 (of_nat N :: 16 word))"
  have sz: "3 + slotWidth leaf * N + cellsSize (items n) + (if leaf then 0 else 8) < length buf"
    using size unfolding serializedSize_eq leaf_def N_def by linarith
  have fit: "3 + slotWidth leaf * N + cellsSize (items n) \<le> R0"
    using sz by (simp add: R0_def)
  have LR: "L + (if leaf then 0 else 8) \<le> R"
    using sz by (simp add: L_def R_def R0_def)
  have R0len: "R0 < length buf" "R0 < 65536"
    using sz page by (simp_all add: R0_def)
  have Nsmall: "N < 65536"
    using sz page cellsSize_ge [of "items n"] by (simp add: N_def)
  have len4: "4 \<le> length buf" using sz by linarith
  have ne: "buf \<noteq> []" using len4 by auto
  have len1: "length b1 = length buf"
    using len4 by (simp add: b1_def)
  have len2: "length b2 = length buf"
    using len4 len1 by (simp add: b2_def)
  have cs: "\<not> leaf \<Longrightarrow> length (childNodes n) = Suc N"
    using ch by (auto simp add: leaf_def isLeaf_def N_def)
  have chr: "\<not> leaf \<Longrightarrow> 0 + length (items n) \<le> length (childNodes n)"
    using cs by (simp add: N_def)
  have fbyte: "(ucast (if isLeaf n then 1 else 0 :: 64 word) :: byte) = fb"
    by (simp add: fb_def leaf_def)
  have f1: "setAt buf 0 (ucast (if isLeaf n then 1 else 0 :: 64 word)) = Inr b1"
  proof -
    have "0 < length buf" using sz by linarith
    from setAt_ok [OF this, of fb] show ?thesis
      unfolding fbyte b1_def by simp
  qed
  have f2: "PutUint16 b1 (0 + 1) (word_of_int (int (length (items n)))) = Inr b2"
    unfolding b2_def using PutUint16_ok [of 1 b1 "of_nat N"] len4 len1 by (simp add: N_def)
  from serializeItems_ok [of 3 leaf "items n" R0 b2 0 "childNodes n"] fit R0len len2 chr
  obtain b3 where ser: "serializeItems (childNodes n) leaf (int 0) (items n) (int 3, int R0, b2)
                 = Inr (int L, int R, b3)"
    and len3: "length b3 = length b2"
    and fr: "\<forall>j<length b2. j < 3 \<or> (L \<le> j \<and> j < R) \<or> R0 \<le> j \<longrightarrow> b3 ! j = b2 ! j"
    by (auto simp add: N_def L_def R_def)
  have f3: "serializeItems (childNodes n) (isLeaf n) 0 (items n) (0 + 1 + 2, int (length buf) - 1, b2)
              = Inr (int L, int R, b3)"
    using ser sz by (simp add: leaf_def R0_def of_nat_diff)
  define c where "c = childNodes n ! N"
  define bF where "bF = (if leaf then b3 else writeAt b3 L (le_bytes 8 c))"
  have Rle: "R \<le> length buf" by (simp add: R_def R0_def)
  have L8: "L + 8 \<le> length b3" if "\<not> leaf"
    using LR that Rle len3 len2 by simp
  have lenF: "length bF = length buf"
    using L8 len3 len2 by (simp add: bF_def)
  have f4: "at (childNodes n) (int (length (childNodes n)) - 1) = Inr c" if "\<not> leaf"
    using cs [OF that] by (simp add: at_def c_def)
  have f5: "PutUint64 b3 (int L) c = Inr (writeAt b3 L (le_bytes 8 c))" if "\<not> leaf"
    by (rule PutUint64_ok [OF L8 [OF that]])
  have S: "serialize n buf = Inr bF"
  proof (cases leaf)
    case True
    then have nl: "(\<not> isLeaf n) = False" by (simp add: leaf_def)
    show ?thesis
      unfolding serialize_def Let_def
      by (simp only: f1 f2 f3 bindE_Inr prod.case nl if_False bF_def True if_True)
  next
    case False
    then have nl: "(\<not> isLeaf n) = True" by (simp add: leaf_def)
    show ?thesis
      unfolding serialize_def Let_def
      by (simp only: f1 f2 f3 bindE_Inr prod.case nl if_True f4 [OF False] f5 [OF False]
          bF_def False if_False)
  qed
  have keepF: "bF ! j = b3 ! j" if "j < length buf" "leaf \<or> j < L \<or> L + 8 \<le> j" for j
  proof (cases leaf)
    case True
    then show ?thesis by (simp add: bF_def)
  next
    case False
    then show ?thesis
      using that L8 [OF False] len3 len2
      by (auto simp add: bF_def nth_writeAt)
  qed
  have L3: "3 \<le> L" by (simp add: L_def)
  have head: "bF ! j = b2 ! j" if "j < 3" for j
  proof -
    have jl: "j < length buf" using that len4 by simp
    have "bF ! j = b3 ! j" using that L3 by (intro keepF [OF jl]) simp
    also have "\<dots> = b2 ! j" using fr that jl len2 by simp
    finally show ?thesis .
  qed
  have g1: "at bF 0 = Inr fb"
  proof -
    have e0: "b1 ! 0 = fb"
      using nth_writeAt [of 0 "[fb]" buf 0] len4 ne by (simp add: b1_def)
    have "b2 ! 0 = fb"
      using nth_writeAt [of 1 "le_bytes 2 (of_nat N :: 16 word)" b1 0] len4 len1 e0 ne
      by (simp add: b2_def)
    then have "bF ! 0 = fb"
      using head [of 0] by simp
    then show ?thesis using lenF len4 ne by (auto simp add: at_def)
  qed
  have g2: "slice bF 1 3 = Inr (le_bytes 2 (of_nat N :: 16 word))"
  proof -
    have "take (length (le_bytes 2 (of_nat N :: 16 word))) (drop 1 bF) = le_bytes 2 (of_nat N :: 16 word)"
    proof (rule take_drop_eqI)
      show "1 + length (le_bytes 2 (of_nat N :: 16 word)) \<le> length bF"
        using lenF len4 by simp
    next
      fix j
      assume "j < length (le_bytes 2 (of_nat N :: 16 word))"
      then have j: "j < 2" by simp
      then have "bF ! (1 + j) = b2 ! (1 + j)" by (intro head) simp
      also have "\<dots> = le_bytes 2 (of_nat N :: 16 word) ! j"
        using nth_writeAt [of 1 "le_bytes 2 (of_nat N :: 16 word)" b1 "1 + j"] j len4 len1 ne
        by (simp add: b2_def)
      finally show "bF ! (1 + j) = le_bytes 2 (of_nat N :: 16 word) ! j" .
    qed
    then show ?thesis
      using slice_read [of "le_bytes 2 (of_nat N :: 16 word)" 1 bF] lenF len4 by simp
  qed
  have g3: "nat (uint (le_word (le_bytes 2 (of_nat N :: 16 word)) :: 16 word)) = N"
    using Nsmall by (simp add: uint_of_nat_16)
  have flag: "((ucast fb :: 16 word) = 0) = (\<not> leaf)"
    by (simp add: fb_def)
  have lenFb: "length bF = length b2" using lenF len2 by simp
  have agree: "bF ! j = b3 ! j"
    if "j < length b2" "(3 \<le> j \<and> j < 3 + slotWidth leaf * length (items n))
          \<or> (R0 - cellsSize (items n) \<le> j \<and> j < R0)" for j
  proof (rule keepF)
    show "j < length buf" using that(1) len2 by simp
    show "leaf \<or> j < L \<or> L + 8 \<le> j"
    proof (cases leaf)
      case True
      then show ?thesis by simp
    next
      case False
      with that(2) LR show ?thesis
        by (auto simp add: L_def N_def R_def)
    qed
  qed
  have kv': "\<forall>it\<in>set (items n). length (key it) \<le> 255 \<and> length (val it) \<le> 255"
    using kv .
  have fit': "3 + slotWidth leaf * length (items n) + cellsSize (items n) \<le> R0"
    using fit by (simp add: N_def)
  have R0le: "R0 \<le> length b2" using R0len len2 by simp
  have des: "deserializeItems bF (ucast fb) (length (items n)) (int 3, NewEmptyNode) =
           Inr (int (3 + slotWidth leaf * length (items n)),
                NewEmptyNode\<lparr>childNodes := childNodes NewEmptyNode
                                @ (if leaf then [] else take (length (items n)) (drop 0 (childNodes n))),
                  items := items NewEmptyNode @ items n\<rparr>)"
    by (rule deserializeItems_ok [OF fit' R0le R0len(2) chr kv' flag ser lenFb agree])
  define m where "m = NewEmptyNode\<lparr>childNodes := (if leaf then [] else take N (childNodes n)),
                                    items := items n\<rparr>"
  have g4: "deserializeItems bF (ucast fb) N (0 + 3, NewEmptyNode) = Inr (int L, m)"
    using des by (simp add: N_def L_def m_def NewEmptyNode_def)
  have g5: "Uint64 bF (int L) = Inr c" if "\<not> leaf"
  proof (rule Uint64_read)
    show "L + 8 \<le> length bF" using L8 [OF that] lenF len3 len2 by simp
    have "take (length (le_bytes 8 c)) (drop L (writeAt b3 L (le_bytes 8 c))) = le_bytes 8 c"
      using L8 [OF that] by (intro read_writeAt) simp
    then show "take 8 (drop L bF) = le_bytes 8 c"
      using that by (simp add: bF_def)
  qed
  define n' where "n' = (if leaf then m else m\<lparr>childNodes := childNodes m @ [c]\<rparr>)"
  have D: "deserialize NewEmptyNode bF = Inr n'"
  proof (cases leaf)
    case True
    then have fl: "((ucast fb :: 16 word) = 0) = False" using flag by simp
    show ?thesis
      unfolding deserialize_def Let_def
      by (simp only: g1 g2 g3 g4 bindE_Inr prod.case fl if_False n'_def True if_True)
  next
    case False
    then have fl: "((ucast fb :: 16 word) = 0) = True" using flag by simp
    show ?thesis
      unfolding deserialize_def Let_def
      by (simp only: g1 g2 g3 g4 bindE_Inr prod.case fl if_True g5 [OF False] n'_def False
          if_False)
  qed
  have its: "items n' = items n"
    by (simp add: n'_def m_def)
  have chn: "childNodes n' = childNodes n"
  proof (cases leaf)
    case True
    then show ?thesis by (simp add: n'_def m_def leaf_def isLeaf_def)
  next
    case False
    from cs [OF False] have "take N (childNodes n) @ [childNodes n ! N] = childNodes n"
      by (simp add: take_Suc_conv_app_nth [symmetric])
    with False show ?thesis by (simp add: n'_def m_def c_def)
  qed
  from S lenF D its chn show ?thesis by blast
qed

theorem serialize_deserialize_roundtrip_witness:
  "\<exists>buf' n'.
     serialize \<lparr>pageNum = 2, items = [item1 98, item1 100], childNodes = [4, 5, 6]\<rparr>
       (replicate 4096 0) = Inr buf'
     \<and> length buf' = 4096
     \<and> deserialize NewEmptyNode buf' = Inr n'
     \<and> items n' = [item1 98, item1 100] \<and> childNodes n' = [4, 5, 6]"
  using serialize_deserialize_roundtrip [of
      "\<lparr>pageNum = 2, items = [item1 98, item1 100], childNodes = [4, 5, 6]\<rparr>"
      "replicate 4096 0"]
  by (simp add: serializedSize_def isLeaf_def item1_def)

subsection \<open>A page filled to its last byte\<close>

lemma bindE_assoc: "bindE (bindE m f) g = bindE m (\<lambda>x. bindE (f x) g)"
  by (cases m) simp_all

lemma serializeItems_append:
  "serializeItems cs leaf i (xs @ ys) st =
     bindE (serializeItems cs leaf i xs st)
       (serializeItems cs leaf (i + int (length xs)) ys)"
proof (induction xs arbitrary: i st)
  case Nil
  then show ?case by simp
next
  case (Cons x xs)
  obtain l r buf where st: "st = (l, r, buf)" by (cases st)
  show ?case
    unfolding st
    by (simp add: Cons.IH bindE_assoc split_beta Let_def add.assoc)
qed

lemma deserializeItems_append:
  "deserializeItems B flag (a + b) st =
     bindE (deserializeItems B flag a st) (deserializeItems B flag b)"
proof (induction a arbitrary: st)
  case 0
  then show ?case by simp
next
  case (Suc a)
  obtain l n where st: "st = (l, n)" by (cases st)
  show ?case
    unfolding st
    by (simp add: Suc.IH bindE_assoc split_beta Let_def)
qed


lemma full_node_valid: "validNode 4096 full_node"
  unfolding validNode_def serializedSize_eq
  by (simp add: full_node_def first_items_def big_item_def last_item_def cellsSize_def
      cellSize_def slotWidth_def isLeaf_def)

lemma full_node_nodeSize: "nodeSize full_node = Inr 4064"
  unfolding nodeSize_sum_list
  by (simp add: full_node_def first_items_def big_item_def last_item_def)

lemma full_node_serialize:
  "\<exists>b2 b7. length b7 = 4096 \<and> length b2 = 4096
     \<and> (\<forall>j<4096. j < 3 \<longrightarrow> b7 ! j = b2 ! j)
     \<and> b2 ! 0 = 0 \<and> b2 ! 1 = 8 \<and> b2 ! 2 = 0
     \<and> serializeItems (childNodes full_node) False 0 first_items (3, 4095, b2) = Inr (73, 511, b7)
     \<and> serialize full_node (replicate 4096 0)
         = Inr (writeAt (writeAt (writeAt b7 73 (slotBytes False 17 90)) 90 (cellBytes last_item))
                  83 (le_bytes 8 (18 :: pgnum)))"
proof -
  define buf where "buf = replicate 4096 (0 :: byte)"
  define cs where "cs = childNodes full_node"
  define b1 where "b1 = writeAt buf 0 [0]"
  define b2 where "b2 = writeAt b1 1 (le_bytes 2 (8 :: 16 word))"
  have lenb: "length buf = 4096" by (simp add: buf_def)
  have len1: "length b1 = 4096" by (simp add: b1_def lenb)
  have len2: "length b2 = 4096" by (simp add: b2_def len1)
  have nl: "isLeaf full_node = False" by (simp add: isLeaf_def full_node_def)
  have cnt: "length (items full_node) = 8" by (simp add: full_node_def first_items_def)
  have f1: "setAt buf 0 (ucast (if isLeaf full_node then 1 else 0 :: 64 word)) = Inr b1"
    using setAt_ok [of 0 buf 0] by (simp add: nl lenb b1_def)
  have f2: "PutUint16 b1 (0 + 1) (word_of_int (int (length (items full_node)))) = Inr b2"
    using PutUint16_ok [of 1 b1 8] by (simp add: cnt len1 b2_def)
  have h0: "b2 ! 0 = 0"
    using nth_writeAt [of 1 "le_bytes 2 (8 :: 16 word)" b1 0] nth_writeAt [of 0 "[0]" buf 0]
    by (simp add: b2_def b1_def lenb len1)
  have h1: "b2 ! 1 = 8" "b2 ! 2 = 0"
    using nth_writeAt [of 1 "le_bytes 2 (8 :: 16 word)" b1 1]
      nth_writeAt [of 1 "le_bytes 2 (8 :: 16 word)" b1 2]
    by (simp_all add: b2_def len1 le_bytes_def upt_rec)
  have c7: "cellsSize first_items = 3584" "length first_items = 7"
    by (simp_all add: first_items_def big_item_def cellsSize_def cellSize_def)
  have lcs: "length cs = 9" by (simp add: cs_def full_node_def)
  from serializeItems_ok [of 3 False first_items 4095 b2 0 cs]
  obtain b7 where ser7: "serializeItems cs False 0 first_items (3, 4095, b2) = Inr (73, 511, b7)"
    and len7: "length b7 = 4096"
    and fr7: "\<forall>j<4096. j < 3 \<or> (73 \<le> j \<and> j < 511) \<or> 4095 \<le> j \<longrightarrow> b7 ! j = b2 ! j"
    by (auto simp add: c7 len2 lcs slotWidth_def simp del: serializeItems.simps(2))
  define b8 where "b8 = writeAt (writeAt b7 73 (slotBytes False 17 90)) 90 (cellBytes last_item)"
  have cl: "cellSize last_item = 421" by (simp add: cellSize_def last_item_def)
  have c17: "at cs (int 7) = Inr 17" by (simp add: at_def cs_def full_node_def)
  have step8: "serializeItems cs False 7 [last_item] (73, 511, b7) = Inr (83, 90, b8)"
    using serializeItems_step [of 73 False last_item 511 b7 cs 7 17 "[]"] c17
    by (simp add: cl len7 slotWidth_def b8_def del: serializeItems.simps(2))
  have len8: "length b8 = 4096"
    by (simp add: b8_def len7 cl slotWidth_def)
  have f3: "serializeItems (childNodes full_node) (isLeaf full_node) 0 (items full_node)
              (0 + 1 + 2, int (length buf) - 1, b2) = Inr (83, 90, b8)"
  proof -
    have "serializeItems cs False 0 (first_items @ [last_item]) (3, 4095, b2)
            = bindE (serializeItems cs False 0 first_items (3, 4095, b2))
                (serializeItems cs False (0 + int (length first_items)) [last_item])"
      by (rule serializeItems_append)
    also have "\<dots> = Inr (83, 90, b8)"
      by (simp only: ser7 bindE_Inr c7) (simp add: step8 del: serializeItems.simps(2))
    finally show ?thesis
      by (simp add: cs_def isLeaf_def lenb full_node_def del: serializeItems.simps(2))
  qed
  define bF where "bF = writeAt b8 83 (le_bytes 8 (18 :: pgnum))"
  have f4: "at (childNodes full_node) (int (length (childNodes full_node)) - 1) = Inr 18"
    by (simp add: at_def full_node_def)
  have f5: "PutUint64 b8 83 18 = Inr bF"
    using PutUint64_ok [of 83 b8 18] by (simp add: len8 bF_def)
  have nlt: "(\<not> isLeaf full_node) = True" using nl by simp
  have S: "serialize full_node buf = Inr bF"
    unfolding serialize_def Let_def
    by (simp only: f1 f2 f3 bindE_Inr prod.case nlt if_True f4 f5)
  show ?thesis
    apply (rule exI [of _ b2], rule exI [of _ b7])
    using len7 len2 fr7 h0 h1 ser7 S
    by (simp add: cs_def buf_def bF_def b8_def del: serializeItems.simps(2))
qed


lemma take2_drop1:
  assumes "3 \<le> length B"
  shows "take 2 (drop 1 B) = [B ! 1, B ! 2]"
proof -
  from assms obtain a b c r where "B = a # b # c # r"
    by (auto simp add: numeral_3_eq_3 Suc_le_length_iff)
  then show ?thesis by (simp add: numeral_2_eq_2)
qed

lemma full_node_deserialize:
  assumes len7: "length b7 = 4096" and len2: "length b2 = 4096"
    and head: "\<forall>j<4096. j < 3 \<longrightarrow> b7 ! j = b2 ! j"
    and hb: "b2 ! 0 = 0" "b2 ! 1 = 8" "b2 ! 2 = 0"
    and ser7: "serializeItems (childNodes full_node) False 0 first_items (3, 4095, b2)
                 = Inr (73, 511, b7)"
  shows "deserialize NewEmptyNode
           (writeAt (writeAt (writeAt b7 73 (slotBytes False 17 90)) 90 (cellBytes last_item))
              83 (le_bytes 8 (18 :: pgnum)))
         = Inr (NewEmptyNode\<lparr>childNodes := childNodes full_node,
                               items := first_items @ [misread_item]\<rparr>)"
proof -
  define cs where "cs = childNodes full_node"
  define sb where "sb = slotBytes False 17 90"
  define cb where "cb = cellBytes last_item"
  define b8 where "b8 = writeAt (writeAt b7 73 sb) 90 cb"
  define bF where "bF = writeAt b8 83 (le_bytes 8 (18 :: pgnum))"
  have lsb: "length sb = 10" by (simp add: sb_def slotWidth_def)
  have lcb: "length cb = 421" by (simp add: cb_def cellSize_def last_item_def)
  have lq: "73 + length sb \<le> 90" and ql: "90 + length cb \<le> length b7"
    by (simp_all add: lsb lcb len7)
  have len8: "length b8 = 4096" by (simp add: b8_def len7 lsb lcb)
  have lenF: "length bF = 4096" by (simp add: bF_def len8)
  have nF: "bF ! j = (if 83 \<le> j \<and> j < 91 then le_bytes 8 (18 :: pgnum) ! (j - 83) else b8 ! j)"
    if "j < 4096" for j
    using nth_writeAt [of 83 "le_bytes 8 (18 :: pgnum)" b8 j] that
    by (simp add: bF_def len8)
  have n8s: "b8 ! (73 + j) = sb ! j" if "j < 10" for j
    unfolding b8_def using that by (intro written_slot [OF lq ql]) (simp add: lsb)
  have n8c: "b8 ! (90 + j) = cb ! j" if "j < 421" for j
    unfolding b8_def using that by (intro written_cell [OF lq ql]) (simp add: lcb)
  have n8f: "b8 ! j = b7 ! j" if "j < 4096" "j < 73 \<or> 511 \<le> j" for j
    unfolding b8_def using that by (intro written_frame [OF lq ql]) (auto simp add: lsb lcb len7)
  have low: "bF ! j = b2 ! j" if "j < 3" for j
    using that nF [of j] n8f [of j] head by simp
  have g1: "at bF 0 = Inr 0"
    using low [of 0] hb lenF by (simp add: at_def)
  have g2: "slice bF 1 3 = Inr [8, 0]"
  proof -
    have "bF ! 1 = 8" "bF ! 2 = 0"
      using low [of 1] low [of 2] hb by simp_all
    then have "take 2 (drop 1 bF) = [8, 0]"
      using take2_drop1 [of bF] by (simp add: lenF)
    then show ?thesis by (simp add: slice_def lenF)
  qed
  have g3: "nat (uint (le_word [8, 0] :: 16 word)) = 7 + 1"
    by simp
  have c7: "cellsSize first_items = 3584" "length first_items = 7"
    by (simp_all add: first_items_def big_item_def cellsSize_def cellSize_def)
  have lcs: "length cs = 9" by (simp add: cs_def full_node_def)
  have kv7: "\<forall>it\<in>set first_items. length (key it) \<le> 255 \<and> length (val it) \<le> 255"
    by (simp add: first_items_def big_item_def)
  have agree: "bF ! j = b7 ! j"
    if "j < length b2"
      "(3 \<le> j \<and> j < 3 + slotWidth False * length first_items)
         \<or> (4095 - cellsSize first_items \<le> j \<and> j < 4095)" for j
    using that nF [of j] n8f [of j] by (auto simp add: len2 c7 slotWidth_def)
  have ser7': "serializeItems cs False (int 0) first_items (int 3, int 4095, b2)
                 = Inr (73, 511, b7)"
    using ser7 by (simp add: cs_def del: serializeItems.simps(2))
  have des7: "deserializeItems bF 0 (length first_items) (int 3, NewEmptyNode) =
           Inr (int (3 + slotWidth False * length first_items),
                NewEmptyNode\<lparr>childNodes := childNodes NewEmptyNode
                                @ (if False then [] else take (length first_items) (drop 0 cs)),
                  items := items NewEmptyNode @ first_items\<rparr>)"
  proof (rule deserializeItems_ok [OF _ _ _ _ kv7 _ ser7' _ agree])
    show "3 + slotWidth False * length first_items + cellsSize first_items \<le> 4095"
      by (simp add: c7 slotWidth_def)
    show "4095 \<le> length b2" by (simp add: len2)
    show "(4095 :: nat) < 65536" by simp
    show "0 + length first_items \<le> length cs" by (simp add: c7 lcs)
    show "((0 :: 16 word) = 0) = (\<not> False)" by simp
    show "length bF = length b2" by (simp add: lenF len2)
  qed
  define m7 where "m7 = NewEmptyNode\<lparr>childNodes := take 7 cs, items := first_items\<rparr>"
  have des7': "deserializeItems bF 0 7 (3, NewEmptyNode) = Inr (73, m7)"
    using des7
    by (simp add: c7 slotWidth_def m7_def NewEmptyNode_def del: deserializeItems.simps(2))
  have slot: "take (slotWidth False) (drop 73 bF) = slotBytes False 17 90"
  proof -
    have "take (length sb) (drop 73 bF) = sb"
    proof (rule take_drop_eqI)
      show "73 + length sb \<le> length bF" by (simp add: lsb lenF)
    next
      fix j
      assume "j < length sb"
      then have j: "j < 10" by (simp add: lsb)
      then show "bF ! (73 + j) = sb ! j"
        using nF [of "73 + j"] n8s [OF j] by simp
    qed
    then show ?thesis by (simp add: lsb sb_def slotWidth_def)
  qed
  have mb: "cellBytes misread_item = [0, 15] @ replicate 15 15"
    by (simp add: cellBytes_def misread_item_def)
  have cell: "take (cellSize misread_item) (drop 90 bF) = cellBytes misread_item"
  proof -
    have "take (length (cellBytes misread_item)) (drop 90 bF) = cellBytes misread_item"
    proof (rule take_drop_eqI)
      show "90 + length (cellBytes misread_item) \<le> length bF"
        by (simp add: cellSize_def misread_item_def lenF)
    next
      fix j
      assume "j < length (cellBytes misread_item)"
      then have j: "j < 17" by (simp add: cellSize_def misread_item_def)
      show "bF ! (90 + j) = cellBytes misread_item ! j"
      proof (cases "j = 0")
        case True
        then show ?thesis
          using nF [of 90] by (simp add: mb le_bytes_def upt_rec)
      next
        case False
        with j have "cb ! j = 15"
          by (simp add: cb_def cellBytes_def last_item_def nth_Cons' nth_append)
        moreover from False j have "cellBytes misread_item ! j = 15"
          by (auto simp add: mb nth_Cons' nth_append)
        ultimately show ?thesis
          using nF [of "90 + j"] n8c [of j] j False by simp
      qed
    qed
    then show ?thesis by simp
  qed
  have des8: "deserializeItems bF 0 (Suc 0) (int 73, m7) =
         deserializeItems bF 0 0
           (int (73 + slotWidth False),
            (if False then m7 else m7\<lparr>childNodes := childNodes m7 @ [17]\<rparr>)\<lparr>items := items m7 @ [misread_item]\<rparr>)"
  proof (rule deserializeItems_step [OF slot cell])
    show "73 + slotWidth False \<le> length bF" by (simp add: slotWidth_def lenF)
    show "90 + cellSize misread_item \<le> length bF"
      by (simp add: cellSize_def misread_item_def lenF)
    show "90 + cellSize misread_item < 65536"
      by (simp add: cellSize_def misread_item_def)
    show "length (key misread_item) \<le> 255" "length (val misread_item) \<le> 255"
      by (simp_all add: misread_item_def)
    show "((0 :: 16 word) = 0) = (\<not> False)" by simp
  qed
  define m8 where "m8 = NewEmptyNode\<lparr>childNodes := take 7 cs @ [17], items := first_items @ [misread_item]\<rparr>"
  have des8': "deserializeItems bF 0 1 (73, m7) = Inr (83, m8)"
    using des8 by (simp add: slotWidth_def m7_def m8_def del: deserializeItems.simps(2))
  have g4: "deserializeItems bF 0 (7 + 1) (0 + 3, NewEmptyNode) = Inr (83, m8)"
  proof -
    have "deserializeItems bF 0 (7 + 1) (3, NewEmptyNode)
            = bindE (deserializeItems bF 0 7 (3, NewEmptyNode)) (deserializeItems bF 0 1)"
      by (rule deserializeItems_append)
    also have "\<dots> = Inr (83, m8)"
      by (simp only: des7' bindE_Inr des8')
    finally show ?thesis by (simp del: deserializeItems.simps(2))
  qed
  have g5: "Uint64 bF 83 = Inr 18"
    using Uint64_read [of 83 bF 18] read_writeAt [of 83 "le_bytes 8 (18 :: pgnum)" b8]
    by (simp add: bF_def len8)
  have fl: "((ucast (0 :: byte) :: 16 word) = 0) = True" by simp
  have uc: "(ucast (0 :: byte) :: 16 word) = 0" by simp
  have D: "deserialize NewEmptyNode bF = Inr (m8\<lparr>childNodes := childNodes m8 @ [18]\<rparr>)"
    unfolding deserialize_def Let_def
    by (simp only: g1 g2 g3 bindE_Inr uc g4 prod.case g5) simp
  have "m8\<lparr>childNodes := childNodes m8 @ [18]\<rparr>
          = NewEmptyNode\<lparr>childNodes := childNodes full_node, items := first_items @ [misread_item]\<rparr>"
    by (simp add: m8_def cs_def full_node_def)
  with D show ?thesis
    by (simp only: bF_def b8_def sb_def cb_def)
qed

text \<open>
  C3 as stated fails on a node whose serialized bytes fill the page exactly: \<open>serialize\<close>
  starts the cells one byte before the end of the page, so the last child page number
  overwrites the key length of the last item, which \<open>deserialize\<close> then reads as an item
  with an empty key. The node is valid as C3 has it, and also by \<open>nodeSize\<close>, which is 4064.
\<close>

theorem serialize_full_page_counterexample:
  "validNode 4096 full_node
   \<and> nodeSize full_node = Inr 4064
   \<and> bindE (serialize full_node (replicate 4096 0)) (deserialize NewEmptyNode)
       = Inr (NewEmptyNode\<lparr>childNodes := childNodes full_node,
                             items := first_items @ [misread_item]\<rparr>)
   \<and> first_items @ [misread_item] \<noteq> items full_node"
proof -
  from full_node_serialize obtain b2 b7
    where "length b7 = 4096" "length b2 = 4096"
      "\<forall>j<4096. j < 3 \<longrightarrow> b7 ! j = b2 ! j" "b2 ! 0 = 0" "b2 ! 1 = 8" "b2 ! 2 = 0"
      "serializeItems (childNodes full_node) False 0 first_items (3, 4095, b2) = Inr (73, 511, b7)"
    and S: "serialize full_node (replicate 4096 0)
         = Inr (writeAt (writeAt (writeAt b7 73 (slotBytes False 17 90)) 90 (cellBytes last_item))
                  83 (le_bytes 8 (18 :: pgnum)))"
    by blast
  note D = full_node_deserialize [OF this(1-7)]
  have "bindE (serialize full_node (replicate 4096 0)) (deserialize NewEmptyNode)
       = Inr (NewEmptyNode\<lparr>childNodes := childNodes full_node,
                             items := first_items @ [misread_item]\<rparr>)"
    by (simp only: S bindE_Inr D)
  moreover have "first_items @ [misread_item] \<noteq> items full_node"
    by (simp add: full_node_def misread_item_def last_item_def)
  ultimately show ?thesis
    using full_node_valid full_node_nodeSize by simp
qed

end
